theory Spec2Isabelle
  imports Main
begin

section \<open>Values, errors and observable events\<close>

text \<open>
  The data handed to \<open>holma\<close> is JSON-shaped: \<open>null\<close>, booleans, numbers, strings, arrays
  and plain objects, an object being the association list of its own properties. A
  number is kept as the text that \<open>String()\<close> gives for it (\<open>42\<close>, \<open>-1.5\<close>, \<open>1e+21\<close>,
  \<open>NaN\<close>): the code never computes with the numbers of the data, it only prints them.
\<close>

datatype json =
    JNull
  | JBool bool
  | JNum string
  | JStr string
  | JArr "json list"
  | JObj "(string \<times> json) list"

text \<open>
  The values the code handles: the data, \<open>undefined\<close>, and what a member access reaches
  beyond the own properties of the data, namely the built-in functions (given by their
  names) and the two prototype objects \<open>Object.prototype\<close> and \<open>Array.prototype\<close>, from
  which every plain object and every array inherits. Getters, symbols, and objects with
  another prototype are outside the model.
\<close>

datatype jsval =
    JUndefined
  | Json json
  | JFun string
  | JObjectPrototype
  | JArrayPrototype

text \<open>A validation issue: its message and its path.\<close>

type_synonym issue = "string \<times> string list"

datatype error =
    TypeError string
  | SchemaError "issue list"
  | MissingValueError string

text \<open>
  The constructor of \<open>MissingValueError\<close> builds the message from the key; the key itself
  is kept in the field \<open>key\<close>, here the argument of the constructor.
\<close>

definition MissingValueError_message :: "string \<Rightarrow> string" where
  "MissingValueError_message key =
     ''Missing a value for '' @
     (if key \<noteq> [] then ''the placeholder: '' @ key else ''a placeholder'')"

text \<open>
  The calls \<open>holma\<close> makes into code supplied by its caller, in the order they happen: the
  validator of the schema, and the transform hook with its \<open>value\<close> and \<open>key\<close>.
\<close>

datatype event =
    EvValidate jsval
  | EvTransform jsval string

text \<open>
  A computation yields the events it caused and either the error it threw (\<open>Inl\<close>) or
  its value (\<open>Inr\<close>). Sequencing stops at the first error and keeps the events so far.
\<close>

type_synonym 'a io = "event list \<times> (error + 'a)"

definition ret :: "'a \<Rightarrow> 'a io" where
  "ret x = ([], Inr x)"

definition throw :: "error \<Rightarrow> 'a io" where
  "throw e = ([], Inl e)"

definition bind_io :: "'a io \<Rightarrow> ('a \<Rightarrow> 'b io) \<Rightarrow> 'b io" where
  "bind_io m f =
     (case m of
        (ev, Inl e) \<Rightarrow> (ev, Inl e)
      | (ev, Inr x) \<Rightarrow> (case f x of (ev', r) \<Rightarrow> (ev @ ev', r)))"

fun typeof :: "jsval \<Rightarrow> string" where
  "typeof JUndefined = ''undefined''"
| "typeof (Json JNull) = ''object''"
| "typeof (Json (JBool b)) = ''boolean''"
| "typeof (Json (JNum n)) = ''number''"
| "typeof (Json (JStr s)) = ''string''"
| "typeof (Json (JArr xs)) = ''object''"
| "typeof (Json (JObj kvs)) = ''object''"
| "typeof (JFun f) = ''function''"
| "typeof JObjectPrototype = ''object''"
| "typeof JArrayPrototype = ''object''"

section \<open>Stringification: \<open>String(value)\<close>\<close>

fun show_nat :: "nat \<Rightarrow> string" where
  "show_nat n =
     (if n < 10 then [''0123456789'' ! n]
      else show_nat (n div 10) @ [''0123456789'' ! (n mod 10)])"

declare show_nat.simps [simp del]

fun join_with :: "string \<Rightarrow> string list \<Rightarrow> string" where
  "join_with sep [] = []"
| "join_with sep [x] = x"
| "join_with sep (x # y # ys) = x @ sep @ join_with sep (y # ys)"

text \<open>Results in a row, up to the first error.\<close>

fun collect :: "(error + 'a) list \<Rightarrow> error + 'a list" where
  "collect [] = Inr []"
| "collect (r # rs) =
     (case r of
        Inl e \<Rightarrow> Inl e
      | Inr x \<Rightarrow> (case collect rs of Inl e \<Rightarrow> Inl e | Inr xs \<Rightarrow> Inr (x # xs)))"

text \<open>
  \<open>String(v)\<close> converts an object to a primitive by calling its \<open>toString\<close> member. An
  array inherits the one of \<open>Array.prototype\<close>, which joins the converted elements by
  commas, \<open>null\<close> giving the empty string; an element that cannot be converted ends the
  call. A plain object inherits the one of \<open>Object.prototype\<close>, which gives
  \<open>[object Object]\<close>, unless it has an own property \<open>toString\<close>: that one holds data, not
  a function, so it is passed over, \<open>valueOf\<close> gives no primitive either, and the
  conversion throws a \<open>TypeError\<close>.
\<close>

definition cannot_convert :: error where
  "cannot_convert = TypeError ''Cannot convert object to primitive value''"

fun json_to_string :: "json \<Rightarrow> error + string" where
  "json_to_string JNull = Inr ''null''"
| "json_to_string (JBool b) = Inr (if b then ''true'' else ''false'')"
| "json_to_string (JNum n) = Inr n"
| "json_to_string (JStr s) = Inr s"
| "json_to_string (JArr xs) =
     (case collect (map (\<lambda>x. if x = JNull then Inr [] else json_to_string x) xs) of
        Inl e \<Rightarrow> Inl e
      | Inr strs \<Rightarrow> Inr (join_with '','' strs))"
| "json_to_string (JObj kvs) =
     (if ''toString'' \<in> set (map fst kvs) then Inl cannot_convert
      else Inr ''[object Object]'')"

text \<open>
  A built-in function prints as its source text, which V8 gives as below. The two
  prototype objects print as an empty plain object and as an empty array.
\<close>

fun to_string :: "jsval \<Rightarrow> error + string" where
  "to_string JUndefined = Inr ''undefined''"
| "to_string (Json j) = json_to_string j"
| "to_string (JFun f) = Inr (''function '' @ f @ ''() { [native code] }'')"
| "to_string JObjectPrototype = Inr ''[object Object]''"
| "to_string JArrayPrototype = Inr []"

section \<open>The HTML-escape primitive\<close>

text \<open>
  Modelled from the spec: \<open>htmlEscape\<close> is imported from the package \<open>escape-goat\<close>, which
  is not part of the repository. The spec gives it as a pure total function on strings
  that maps the five HTML-significant characters to their entities.
\<close>

definition escape_char :: "char \<Rightarrow> string" where
  "escape_char c =
     (if c = CHR ''&'' then ''&amp;''
      else if c = CHR ''<'' then ''&lt;''
      else if c = CHR ''>'' then ''&gt;''
      else if c = CHR 0x22 then ''&quot;''
      else if c = CHR 0x27 then ''&#39;''
      else [c])"

definition htmlEscape :: "string \<Rightarrow> string" where
  "htmlEscape s = concat (map escape_char s)"

section \<open>Nested lookup: \<open>getNestedValue\<close>\<close>

text \<open>\<open>path.split('.')\<close>: one piece more than there are dots, never the empty list.\<close>

fun split_dot :: "string \<Rightarrow> string list" where
  "split_dot [] = [[]]"
| "split_dot (c # cs) =
     (if c = CHR ''.'' then [] # split_dot cs
      else (case split_dot cs of
              [] \<Rightarrow> [[c]]
            | p # ps \<Rightarrow> (c # p) # ps))"

definition is_digit :: "char \<Rightarrow> bool" where
  "is_digit c \<longleftrightarrow> 48 \<le> (of_char c :: nat) \<and> (of_char c :: nat) \<le> 57"

text \<open>
  An array index is a canonical decimal numeral: digits only, no leading zero unless it
  is \<open>0\<close> itself.
\<close>

definition parse_index :: "string \<Rightarrow> nat option" where
  "parse_index s =
     (if s \<noteq> [] \<and> list_all is_digit s \<and> (s = ''0'' \<or> hd s \<noteq> CHR ''0'')
      then Some (foldl (\<lambda>a c. 10 * a + (of_char c - 48)) 0 s)
      else None)"

text \<open>
  The methods of \<open>Object.prototype\<close> and of \<open>Array.prototype\<close> (ECMAScript 2023, with the
  legacy methods of Annex B). Besides them each prototype has its
  \<open>constructor\<close>, \<open>Array.prototype\<close> has the \<open>length\<close> 0, and \<open>Object.prototype\<close> has the
  accessor \<open>__proto__\<close>.
\<close>

definition object_prototype_methods :: "string list" where
  "object_prototype_methods =
     [''__defineGetter__'', ''__defineSetter__'', ''hasOwnProperty'', ''__lookupGetter__'',
      ''__lookupSetter__'', ''isPrototypeOf'', ''propertyIsEnumerable'', ''toString'',
      ''valueOf'', ''toLocaleString'']"

definition array_prototype_methods :: "string list" where
  "array_prototype_methods =
     [''at'', ''concat'', ''copyWithin'', ''fill'', ''find'', ''findIndex'', ''findLast'',
      ''findLastIndex'', ''lastIndexOf'', ''pop'', ''push'', ''reverse'', ''shift'',
      ''unshift'', ''slice'', ''sort'', ''splice'', ''includes'', ''indexOf'', ''join'',
      ''keys'', ''entries'', ''values'', ''forEach'', ''filter'', ''flat'', ''flatMap'',
      ''map'', ''every'', ''some'', ''reduce'', ''reduceRight'', ''toLocaleString'',
      ''toString'', ''toReversed'', ''toSorted'', ''toSpliced'', ''with'']"

text \<open>
  The own properties of an object: the fields of a plain object; the elements of an
  array, under their indices, and its \<open>length\<close>; the members of the two prototypes.
\<close>

fun own_property :: "jsval \<Rightarrow> string \<Rightarrow> jsval option" where
  "own_property (Json (JObj kvs)) name = map_option Json (map_of kvs name)"
| "own_property (Json (JArr xs)) name =
     (case parse_index name of
        Some i \<Rightarrow> (if i < length xs then Some (Json (xs ! i)) else None)
      | None \<Rightarrow>
          (if name = ''length'' then Some (Json (JNum (show_nat (length xs)))) else None))"
| "own_property JObjectPrototype name =
     (if name = ''constructor'' then Some (JFun ''Object'')
      else if name \<in> set object_prototype_methods then Some (JFun name)
      else None)"
| "own_property JArrayPrototype name =
     (if name = ''constructor'' then Some (JFun ''Array'')
      else if name = ''length'' then Some (Json (JNum ''0''))
      else if name \<in> set array_prototype_methods then Some (JFun name)
      else None)"
| "own_property v name = None"

text \<open>The prototype of an object; \<open>Object.prototype\<close> has none.\<close>

fun prototype_of :: "jsval \<Rightarrow> jsval" where
  "prototype_of (Json (JObj kvs)) = JObjectPrototype"
| "prototype_of (Json (JArr xs)) = JArrayPrototype"
| "prototype_of JArrayPrototype = JObjectPrototype"
| "prototype_of v = Json JNull"

fun chain_length :: "jsval \<Rightarrow> nat" where
  "chain_length (Json (JObj kvs)) = 1"
| "chain_length (Json (JArr xs)) = 2"
| "chain_length JArrayPrototype = 1"
| "chain_length v = 0"

text \<open>
  Reading the member \<open>name\<close> of \<open>receiver\<close>: the own property of the first object on the
  prototype chain that has one. The accessor \<open>__proto__\<close> of \<open>Object.prototype\<close> gives the
  prototype of the object it is read from. Without any property the result is
  \<open>undefined\<close>.
\<close>

function lookup_member :: "jsval \<Rightarrow> jsval \<Rightarrow> string \<Rightarrow> jsval" where
  "lookup_member holder receiver name =
     (case own_property holder name of
        Some x \<Rightarrow> x
      | None \<Rightarrow>
          if holder = JObjectPrototype \<and> name = ''__proto__'' then prototype_of receiver
          else if prototype_of holder = Json JNull then JUndefined
          else lookup_member (prototype_of holder) receiver name)"
  by pat_completeness auto

termination
proof (relation "measure (\<lambda>(holder, receiver, name). chain_length holder)")
  show "wf (measure (\<lambda>(holder, receiver, name). chain_length holder))" by simp
next
  fix holder receiver :: jsval and name :: string
  assume "prototype_of holder \<noteq> Json JNull"
  then have "chain_length (prototype_of holder) < chain_length holder"
    by (cases holder rule: prototype_of.cases) simp_all
  then show "((prototype_of holder, receiver, name), holder, receiver, name)
               \<in> measure (\<lambda>(holder, receiver, name). chain_length holder)"
    by simp
qed

declare lookup_member.simps [simp del]

text \<open>
  The member access \<open>value[part]\<close>. It throws a \<open>TypeError\<close> on \<open>null\<close> and \<open>undefined\<close>.
  The members that strings, numbers, booleans and functions have through their wrappers
  are outside the model, which has \<open>undefined\<close> for them: \<open>getNestedValue\<close> reads the
  members of what \<open>typeof\<close> calls an object only.
\<close>

definition get_prop :: "jsval \<Rightarrow> string \<Rightarrow> error + jsval" where
  "get_prop v part =
     (case v of
        JUndefined \<Rightarrow> Inl (TypeError ''Cannot read properties of undefined'')
      | Json JNull \<Rightarrow> Inl (TypeError ''Cannot read properties of null'')
      | _ \<Rightarrow> Inr (lookup_member v v part))"

text \<open>
  The loop of \<open>getNestedValue\<close> over the parts of the path, with its two early returns:
  \<open>value == null\<close> holds of \<open>null\<close> and of \<open>undefined\<close>.
\<close>

fun getNestedValue_loop :: "jsval \<Rightarrow> string list \<Rightarrow> error + jsval" where
  "getNestedValue_loop v [] = Inr v"
| "getNestedValue_loop v (part # parts) =
     (if v = Json JNull \<or> v = JUndefined then Inr JUndefined
      else if typeof v = ''object'' then
        (case get_prop v part of
           Inl e \<Rightarrow> Inl e
         | Inr v' \<Rightarrow> getNestedValue_loop v' parts)
      else Inr JUndefined)"

definition getNestedValue :: "jsval \<Rightarrow> string \<Rightarrow> error + jsval" where
  "getNestedValue obj path = getNestedValue_loop obj (split_dot path)"

section \<open>The two placeholder patterns\<close>

text \<open>
  \<open>doubleBraces\<close> and \<open>singleBraces\<close> are the same pattern between two braces and between
  one: the key is \<open>\d+\<close> or \<open>[a-z$_][\w\-$]*(?:\.[\w\-$]*)*\<close>, with the flags \<open>g\<close> and \<open>i\<close>.
  Under \<open>i\<close> (without \<open>u\<close>) the class \<open>[a-z]\<close> holds the ASCII letters of both cases.
\<close>

definition is_alpha :: "char \<Rightarrow> bool" where
  "is_alpha c \<longleftrightarrow>
     (65 \<le> (of_char c :: nat) \<and> (of_char c :: nat) \<le> 90) \<or>
     (97 \<le> (of_char c :: nat) \<and> (of_char c :: nat) \<le> 122)"

definition ident_start :: "char \<Rightarrow> bool" where
  "ident_start c \<longleftrightarrow> is_alpha c \<or> c = CHR ''$'' \<or> c = CHR ''_''"

definition is_word :: "char \<Rightarrow> bool" where
  "is_word c \<longleftrightarrow> is_alpha c \<or> is_digit c \<or> c = CHR ''_''"

definition key_char :: "char \<Rightarrow> bool" where
  "key_char c \<longleftrightarrow> is_word c \<or> c = CHR ''-'' \<or> c = CHR ''$''"

text \<open>
  A regular expression of the kind the two patterns are made of: a character class,
  a sequence, an alternative and a repetition.
\<close>

datatype regex =
    Cls "char \<Rightarrow> bool"
  | Cat regex regex
  | Alt regex regex
  | Star regex

definition Chr :: "char \<Rightarrow> regex" where
  "Chr c = Cls (\<lambda>x. x = c)"

definition Plus :: "regex \<Rightarrow> regex" where
  "Plus r = Cat r (Star r)"

text \<open>
  Backtracking matching at the start of a text: every way the expression can match, as
  the text left after the match, in the order the matcher tries them. The first
  alternative comes first, a repetition takes as many rounds as it can before it
  gives one back, and a round of a repetition that takes no character is not tried.
\<close>

function matches :: "regex \<Rightarrow> string \<Rightarrow> string list" where
  "matches (Cls P) [] = []"
| "matches (Cls P) (c # cs) = (if P c then [cs] else [])"
| "matches (Cat a b) s = concat (map (matches b) (matches a s))"
| "matches (Alt a b) s = matches a s @ matches b s"
| "matches (Star a) s =
     concat (map (matches (Star a)) (filter (\<lambda>r. length r < length s) (matches a s))) @ [s]"
  by pat_completeness auto
termination
  by (relation "measures [\<lambda>(r, s). size r, \<lambda>(r, s). length s]") simp_all

declare matches.simps(5) [simp del]

text \<open>The capture group: \<open>\d+|[a-z$_][\w\-$]*(?:\.[\w\-$]*)*\<close>.\<close>

definition key_regex :: regex where
  "key_regex =
     Alt (Plus (Cls is_digit))
         (Cat (Cls ident_start)
              (Cat (Star (Cls key_char))
                   (Star (Cat (Chr CHR ''.'') (Star (Cls key_char))))))"

text \<open>The two patterns differ in the number of braces on each side of the key.\<close>

datatype pattern = doubleBraces | singleBraces

fun pattern_regex :: "pattern \<Rightarrow> regex" where
  "pattern_regex doubleBraces =
     Cat (Chr CHR ''{'') (Cat (Chr CHR ''{'') (Cat key_regex (Cat (Chr CHR ''}'') (Chr CHR ''}''))))"
| "pattern_regex singleBraces =
     Cat (Chr CHR ''{'') (Cat key_regex (Chr CHR ''}''))"

fun braces :: "pattern \<Rightarrow> nat" where
  "braces doubleBraces = 2"
| "braces singleBraces = 1"

text \<open>
  One attempt to match the pattern at the start of the text. The match is the first
  one the matcher finds: the matched placeholder is the text it has taken, and the key
  (the capture group) is the placeholder without the braces on its two sides.
\<close>

definition rx_exec :: "pattern \<Rightarrow> string \<Rightarrow> (string \<times> string) option" where
  "rx_exec rx s =
     (case matches (pattern_regex rx) s of
        [] \<Rightarrow> None
      | rest # others \<Rightarrow>
          (let placeholder = take (length s - length rest) s
           in Some (placeholder,
                    take (length placeholder - 2 * braces rx) (drop (braces rx) placeholder))))"

text \<open>\<open>regex.test(s)\<close> from index 0: is there a match at some position.\<close>

fun rx_test :: "pattern \<Rightarrow> string \<Rightarrow> bool" where
  "rx_test rx [] = False"
| "rx_test rx (c # cs) =
     (case rx_exec rx (c # cs) of
        Some m \<Rightarrow> True
      | None \<Rightarrow> rx_test rx cs)"

section \<open>\<open>String.prototype.replace\<close> with a global pattern and a function\<close>

text \<open>
  All matches are found from left to right, each search starting at the index where
  the last match ended (a match has at least its opening brace, so the search moves on);
  the replacer is called for every match with the matched text and the capture, and
  what it returns is inserted as it is. The text between matches is kept. An exception
  in the replacer ends the call.
\<close>

fun replace_all :: "pattern \<Rightarrow> (string \<Rightarrow> string \<Rightarrow> string io) \<Rightarrow> string \<Rightarrow> string io" where
  "replace_all rx fn [] = ret []"
| "replace_all rx fn (c # cs) =
     (case rx_exec rx (c # cs) of
        None \<Rightarrow> bind_io (replace_all rx fn cs) (\<lambda>out. ret (c # out))
      | Some (placeholder, key) \<Rightarrow>
          bind_io (fn placeholder key) (\<lambda>rep.
          bind_io (replace_all rx fn (drop (length placeholder - 1) cs)) (\<lambda>out.
          ret (rep @ out))))"


section \<open>The validator adapter and the renderer\<close>

datatype vresult = VValue jsval | VIssues "issue list"

type_synonym schema = "jsval \<Rightarrow> vresult"

record HolmaOptions =
  ignoreMissing :: bool
  transform :: "(jsval \<Rightarrow> string \<Rightarrow> jsval) option"

text \<open>
  \<open>validateSchema\<close> calls the validator of the schema once; a result with \<open>issues\<close> is
  thrown as a \<open>SchemaError\<close> holding them, otherwise the \<open>value\<close> of the result is
  returned. Awaiting a promise of the result does not show in the model.
\<close>

definition validateSchema :: "schema \<Rightarrow> jsval \<Rightarrow> jsval io" where
  "validateSchema schema input =
     (case schema input of
        VIssues issues \<Rightarrow> ([EvValidate input], Inl (SchemaError issues))
      | VValue v \<Rightarrow> ([EvValidate input], Inr v))"

text \<open>The hook is a pure function here; calling it is recorded as an event.\<close>

definition call_transform :: "HolmaOptions \<Rightarrow> jsval \<Rightarrow> string \<Rightarrow> jsval io" where
  "call_transform options v key =
     (case transform options of
        Some f \<Rightarrow> ([EvTransform v key], Inr (f v key))
      | None \<Rightarrow> ret v)"

text \<open>
  The replacer: \<open>String(transformed)\<close> can throw, which ends the call like any
  exception.
\<close>

definition replace :: "HolmaOptions \<Rightarrow> jsval \<Rightarrow> string \<Rightarrow> string \<Rightarrow> string io" where
  "replace options safeData placeholder key =
     bind_io ([], getNestedValue safeData key) (\<lambda>v.
     bind_io (call_transform options v key) (\<lambda>transformed.
       if transformed = JUndefined then
         (if ignoreMissing options then ret placeholder
          else throw (MissingValueError key))
       else ([], to_string transformed)))"

definition withEscape ::
  "(string \<Rightarrow> string \<Rightarrow> string io) \<Rightarrow> string \<Rightarrow> string \<Rightarrow> string io" where
  "withEscape fn placeholder key = bind_io (fn placeholder key) (\<lambda>s. ret (htmlEscape s))"

definition str_of :: "jsval \<Rightarrow> string" where
  "str_of v = (case v of Json (JStr s) \<Rightarrow> s | _ \<Rightarrow> [])"

definition holma :: "jsval \<Rightarrow> schema \<Rightarrow> jsval \<Rightarrow> HolmaOptions \<Rightarrow> string io" where
  "holma template schema data options =
     (if typeof template \<noteq> ''string'' then
        throw (TypeError (''Expected a `string` for template, got `'' @ typeof template @ ''`''))
      else
        bind_io (validateSchema schema data) (\<lambda>safeData.
        bind_io (if rx_test doubleBraces (str_of template)
                 then replace_all doubleBraces (withEscape (replace options safeData))
                        (str_of template)
                 else ret (str_of template)) (\<lambda>result.
        replace_all singleBraces (replace options safeData) result)))"

section \<open>Notions used to state the properties\<close>

text \<open>The braces in front of the key and behind it.\<close>

definition open_braces :: "pattern \<Rightarrow> string" where
  "open_braces rx = replicate (braces rx) CHR ''{''"

definition close_braces :: "pattern \<Rightarrow> string" where
  "close_braces rx = replicate (braces rx) CHR ''}''"

text \<open>The language of a regular expression.\<close>

inductive_set star :: "string set \<Rightarrow> string set" for L :: "string set" where
  star_empty: "[] \<in> star L"
| star_step: "u \<in> L \<Longrightarrow> v \<in> star L \<Longrightarrow> u @ v \<in> star L"

fun lang :: "regex \<Rightarrow> string set" where
  "lang (Cls P) = {[c] | c. P c}"
| "lang (Cat a b) = {u @ v | u v. u \<in> lang a \<and> v \<in> lang b}"
| "lang (Alt a b) = lang a \<union> lang b"
| "lang (Star a) = star (lang a)"

text \<open>A character of the classes \<open>[\w\-$]\<close> or a dot.\<close>

definition key_dot_char :: "char \<Rightarrow> bool" where
  "key_dot_char c \<longleftrightarrow> key_char c \<or> c = CHR ''.''"

text \<open>
  The keys of the two patterns: digits only, or a first character of \<open>[a-z$_]\<close> followed by
  characters of \<open>[\w\-$]\<close> and dots in any order.
\<close>

definition is_key :: "string \<Rightarrow> bool" where
  "is_key k \<longleftrightarrow>
     k \<noteq> [] \<and> (list_all is_digit k \<or> (ident_start (hd k) \<and> list_all key_dot_char (tl k)))"

text \<open>
  The value that \<open>replace\<close> compares with \<open>undefined\<close> for a key: the value found in the
  data, passed through the transform hook when there is one.
\<close>

definition lookup_transformed :: "HolmaOptions \<Rightarrow> jsval \<Rightarrow> string \<Rightarrow> jsval" where
  "lookup_transformed options safeData key =
     (case getNestedValue safeData key of
        Inl e \<Rightarrow> JUndefined
      | Inr v \<Rightarrow> (case transform options of Some f \<Rightarrow> f v key | None \<Rightarrow> v))"

text \<open>A key is missing when its resolved and transformed value is \<open>undefined\<close>.\<close>

definition missing :: "HolmaOptions \<Rightarrow> jsval \<Rightarrow> string \<Rightarrow> bool" where
  "missing options d k \<longleftrightarrow> lookup_transformed options d k = JUndefined"

text \<open>
  The segments of a dot-separated key: the text up to the first dot, then the segments
  of the text behind that dot.
\<close>

function segments :: "string \<Rightarrow> string list" where
  "segments s =
     (case dropWhile (\<lambda>c. c \<noteq> CHR ''.'') s of
        [] \<Rightarrow> [s]
      | dot # rest \<Rightarrow> takeWhile (\<lambda>c. c \<noteq> CHR ''.'') s # segments rest)"
  by pat_completeness auto

termination
proof (relation "measure length")
  show "wf (measure length)" by simp
next
  fix s :: string and dot rest
  assume "dropWhile (\<lambda>c. c \<noteq> CHR ''.'') s = dot # rest"
  moreover have "length (dropWhile (\<lambda>c. c \<noteq> CHR ''.'') s) \<le> length s"
    by (rule length_dropWhile_le)
  ultimately show "(rest, s) \<in> measure length" by simp
qed

declare segments.simps [simp del]

text \<open>
  The nested lookup in the words of the specification: walk the segments in order; give
  the absent marker when the current value is null or absent, or is not a traversable
  structure; otherwise descend into the named field of a mapping or to the index of a
  sequence, which is absent when the structure has no such field or index.
\<close>

definition field_of :: "(string \<times> json) list \<Rightarrow> string \<Rightarrow> jsval option" where
  "field_of kvs name =
     (case filter (\<lambda>kv. fst kv = name) kvs of
        [] \<Rightarrow> None
      | kv # others \<Rightarrow> Some (Json (snd kv)))"

definition element_of :: "json list \<Rightarrow> string \<Rightarrow> jsval option" where
  "element_of xs name =
     (case filter (\<lambda>i. show_nat i = name) [0 ..< length xs] of
        [] \<Rightarrow> None
      | i # others \<Rightarrow> Some (Json (xs ! i)))"

fun spec_descend :: "jsval \<Rightarrow> string \<Rightarrow> jsval option" where
  "spec_descend (Json (JObj kvs)) name = field_of kvs name"
| "spec_descend (Json (JArr xs)) name = element_of xs name"
| "spec_descend v name = None"

fun spec_traversable :: "jsval \<Rightarrow> bool" where
  "spec_traversable (Json (JObj kvs)) = True"
| "spec_traversable (Json (JArr xs)) = True"
| "spec_traversable v = False"

fun spec_lookup :: "jsval \<Rightarrow> string list \<Rightarrow> jsval" where
  "spec_lookup v [] = v"
| "spec_lookup v (name # names) =
     (if v = Json JNull \<or> v = JUndefined then JUndefined
      else if \<not> spec_traversable v then JUndefined
      else (case spec_descend v name of
              None \<Rightarrow> JUndefined
            | Some x \<Rightarrow> spec_lookup x names))"

text \<open>
  The same walk with the members a structure has besides its fields and indices: the
  \<open>length\<close> of a sequence, and what plain objects and arrays inherit from their
  prototypes. The prototypes themselves can be walked into.
\<close>

definition object_member :: "string \<Rightarrow> jsval" where
  "object_member name =
     (if name = ''constructor'' then JFun ''Object''
      else if name \<in> set object_prototype_methods then JFun name
      else JUndefined)"

definition array_member :: "string \<Rightarrow> jsval" where
  "array_member name =
     (if name = ''constructor'' then JFun ''Array''
      else if name \<in> set array_prototype_methods then JFun name
      else object_member name)"

fun traversable :: "jsval \<Rightarrow> bool" where
  "traversable (Json (JObj kvs)) = True"
| "traversable (Json (JArr xs)) = True"
| "traversable JObjectPrototype = True"
| "traversable JArrayPrototype = True"
| "traversable v = False"

fun descend :: "jsval \<Rightarrow> string \<Rightarrow> jsval" where
  "descend (Json (JObj kvs)) name =
     (case field_of kvs name of
        Some x \<Rightarrow> x
      | None \<Rightarrow> if name = ''__proto__'' then JObjectPrototype else object_member name)"
| "descend (Json (JArr xs)) name =
     (case element_of xs name of
        Some x \<Rightarrow> x
      | None \<Rightarrow>
          if name = ''length'' then Json (JNum (show_nat (length xs)))
          else if name = ''__proto__'' then JArrayPrototype
          else array_member name)"
| "descend JObjectPrototype name =
     (if name = ''__proto__'' then Json JNull else object_member name)"
| "descend JArrayPrototype name =
     (if name = ''length'' then Json (JNum ''0'')
      else if name = ''__proto__'' then JObjectPrototype
      else array_member name)"
| "descend v name = JUndefined"

fun nested_lookup :: "jsval \<Rightarrow> string list \<Rightarrow> jsval" where
  "nested_lookup v [] = v"
| "nested_lookup v (name # names) =
     (if v = Json JNull \<or> v = JUndefined then JUndefined
      else if traversable v then nested_lookup (descend v name) names
      else JUndefined)"

text \<open>
  The names under which a plain object or an array has a member that is neither a
  field nor an index.
\<close>

definition builtin_name :: "string \<Rightarrow> bool" where
  "builtin_name name \<longleftrightarrow>
     name \<in> set ([''length'', ''constructor'', ''__proto__'']
                  @ object_prototype_methods @ array_prototype_methods)"

text \<open>
  The renderer of the specification with the first pass run on every template, and the
  renderer with the first pass left out. \<open>holma\<close> itself decides by \<open>doubleBraces.test\<close>.
\<close>

definition holma_first_pass_always ::
  "jsval \<Rightarrow> schema \<Rightarrow> jsval \<Rightarrow> HolmaOptions \<Rightarrow> string io" where
  "holma_first_pass_always template schema data options =
     (if typeof template \<noteq> ''string'' then
        throw (TypeError (''Expected a `string` for template, got `'' @ typeof template @ ''`''))
      else
        bind_io (validateSchema schema data) (\<lambda>safeData.
        bind_io (replace_all doubleBraces (withEscape (replace options safeData))
                   (str_of template)) (\<lambda>result.
        replace_all singleBraces (replace options safeData) result)))"

definition holma_first_pass_skipped ::
  "jsval \<Rightarrow> schema \<Rightarrow> jsval \<Rightarrow> HolmaOptions \<Rightarrow> string io" where
  "holma_first_pass_skipped template schema data options =
     (if typeof template \<noteq> ''string'' then
        throw (TypeError (''Expected a `string` for template, got `'' @ typeof template @ ''`''))
      else
        bind_io (validateSchema schema data) (\<lambda>safeData.
        replace_all singleBraces (replace options safeData) (str_of template)))"

text \<open>
  The events of the replacer for a key: the call of the transform hook, when there is
  one.
\<close>

definition key_events :: "HolmaOptions \<Rightarrow> jsval \<Rightarrow> string \<Rightarrow> event list" where
  "key_events options d k = fst (replace options d [] k)"

text \<open>The two passes of \<open>holma\<close> on their own.\<close>

definition first_pass :: "HolmaOptions \<Rightarrow> jsval \<Rightarrow> string \<Rightarrow> string io" where
  "first_pass options safeData t =
     replace_all doubleBraces (withEscape (replace options safeData)) t"

definition second_pass :: "HolmaOptions \<Rightarrow> jsval \<Rightarrow> string \<Rightarrow> string io" where
  "second_pass options safeData t = replace_all singleBraces (replace options safeData) t"

text \<open>
  The key grammar in the words of the specification: digits only, or segments
  separated by dots, each of them not empty, starting with a letter, \<open>$\<close> or \<open>_\<close> and
  going on with word characters, hyphens or \<open>$\<close>.
\<close>

definition spec_segment :: "string \<Rightarrow> bool" where
  "spec_segment s \<longleftrightarrow> s \<noteq> [] \<and> ident_start (hd s) \<and> list_all key_char (tl s)"

definition spec_key :: "string \<Rightarrow> bool" where
  "spec_key k \<longleftrightarrow> (k \<noteq> [] \<and> list_all is_digit k) \<or> list_all spec_segment (split_dot k)"

text \<open>Two schemas for the examples: one accepts every input, one rejects every input.\<close>

definition accept :: schema where
  "accept d = VValue d"

definition reject_name :: schema where
  "reject_name d = VIssues [(''Expected string, received number'', [''name''])]"

text \<open>Options and data for the examples.\<close>

definition plain :: HolmaOptions where
  "plain = \<lparr>ignoreMissing = False, transform = None\<rparr>"

definition lenient :: HolmaOptions where
  "lenient = \<lparr>ignoreMissing = True, transform = None\<rparr>"

definition person :: jsval where
  "person = Json (JObj [(''name'', JStr ''World'')])"


definition tracing :: HolmaOptions where
  "tracing = \<lparr>ignoreMissing = False, transform = Some (\<lambda>v k. v)\<rparr>"

definition letter :: jsval where
  "letter = Json (JObj [(''c'', JStr ''x''), (''e'', JStr ''y'')])"

section \<open>Auxiliary lemmas\<close>

subsection \<open>Sequencing\<close>

lemma bind_io_ret [simp]: "bind_io (ret x) f = f x"
  by (cases "f x") (simp add: bind_io_def ret_def)

lemma bind_io_throw [simp]: "bind_io (throw e) f = throw e"
  by (simp add: bind_io_def throw_def)

lemma bind_io_ret_right [simp]: "bind_io m ret = m"
  by (cases m) (auto simp: bind_io_def ret_def split: sum.splits)

lemma bind_io_assoc: "bind_io (bind_io m f) g = bind_io m (\<lambda>x. bind_io (f x) g)"
  by (cases m) (auto simp: bind_io_def split: sum.splits prod.splits)

lemma snd_bind_io:
  "snd (bind_io m f) = (case snd m of Inl e \<Rightarrow> Inl e | Inr x \<Rightarrow> snd (f x))"
  by (cases m) (auto simp: bind_io_def split: sum.splits prod.splits)

lemma fst_bind_io:
  "fst (bind_io m f) = (case snd m of Inl e \<Rightarrow> fst m | Inr x \<Rightarrow> fst m @ fst (f x))"
  by (cases m) (auto simp: bind_io_def split: sum.splits prod.splits)

lemma snd_ret [simp]: "snd (ret x) = Inr x"
  by (simp add: ret_def)

lemma fst_ret [simp]: "fst (ret x) = []"
  by (simp add: ret_def)

lemma snd_throw [simp]: "snd (throw e) = Inl e"
  by (simp add: throw_def)

lemma fst_throw [simp]: "fst (throw e) = []"
  by (simp add: throw_def)

subsection \<open>The lookup never throws\<close>

lemma get_prop_object:
  "typeof v = ''object'' \<Longrightarrow> v \<noteq> Json JNull \<Longrightarrow> \<exists>v'. get_prop v part = Inr v'"
  by (cases v rule: typeof.cases) (simp_all add: get_prop_def)

lemma getNestedValue_loop_total: "\<exists>v'. getNestedValue_loop v parts = Inr v'"
proof (induction parts arbitrary: v)
  case Nil
  show ?case by simp
next
  case (Cons part parts)
  show ?case
  proof (cases "v = Json JNull \<or> v = JUndefined \<or> typeof v \<noteq> ''object''")
    case True
    then show ?thesis by auto
  next
    case False
    then obtain v' where "get_prop v part = Inr v'"
      using get_prop_object by blast
    with False Cons.IH [of v'] show ?thesis by simp
  qed
qed

lemma getNestedValue_total: "\<exists>v. getNestedValue obj path = Inr v"
  by (simp add: getNestedValue_def getNestedValue_loop_total)

subsection \<open>The walk of the lookup\<close>

lemma segments_split_dot: "segments s = split_dot s"
proof (induction s)
  case Nil
  show ?case by (simp add: segments.simps)
next
  case (Cons c cs)
  let ?P = "\<lambda>c. c \<noteq> CHR ''.''"
  show ?case
  proof (cases "c = CHR ''.''")
    case True
    with Cons show ?thesis by (subst segments.simps) simp
  next
    case False
    then have s: "segments (c # cs) =
        (case dropWhile ?P cs of [] \<Rightarrow> [c # cs] | dot # rest \<Rightarrow> (c # takeWhile ?P cs) # segments rest)"
      by (subst segments.simps) (simp cong: list.case_cong)
    have t: "split_dot cs =
        (case dropWhile ?P cs of [] \<Rightarrow> [cs] | dot # rest \<Rightarrow> takeWhile ?P cs # segments rest)"
      using Cons.IH by (subst (asm) segments.simps) simp
    show ?thesis
      unfolding s using False t
      by (cases "dropWhile ?P cs") (simp_all del: dropWhile_eq_Nil_conv)
  qed
qed

lemma digit_chars:
  assumes "n < 10"
  shows "is_digit (''0123456789'' ! n)" and "of_char (''0123456789'' ! n) - 48 = n"
    and "''0123456789'' ! n = CHR ''0'' \<longleftrightarrow> n = 0"
proof -
  from assms have "n \<in> {0, 1, 2, 3, 4, 5, 6, 7, 8, 9}"
    by auto
  then show "is_digit (''0123456789'' ! n)" and "of_char (''0123456789'' ! n) - 48 = n"
    and "''0123456789'' ! n = CHR ''0'' \<longleftrightarrow> n = 0"
    by (auto simp: is_digit_def)
qed

lemma char_of_digit:
  assumes "is_digit c"
  shows "''0123456789'' ! (of_char c - 48) = c"
proof -
  define n where "n = (of_char c :: nat)"
  have c: "c = char_of n" by (simp add: n_def)
  from assms have "48 \<le> n" "n \<le> 57"
    unfolding is_digit_def n_def [symmetric] by simp_all
  then have "n \<in> {48, 49, 50, 51, 52, 53, 54, 55, 56, 57}"
    by (simp add: le_Suc_eq) arith
  then have "c \<in> set ''0123456789''"
    unfolding c by (elim insertE emptyE) (simp_all add: char_of_def bit_Suc_0_iff)
  then show ?thesis by auto
qed

lemma digit_value: "is_digit c \<Longrightarrow> (of_char c :: nat) - 48 < 10"
  by (auto simp: is_digit_def)

lemma parse_index_show_nat: "parse_index (show_nat n) = Some n"
proof (induction n rule: show_nat.induct)
  case (1 n)
  show ?case
  proof (cases "n < 10")
    case True
    then have s: "show_nat n = [''0123456789'' ! n]" by (subst show_nat.simps) simp
    from digit_chars [OF True] show ?thesis
      unfolding s by (auto simp: parse_index_def)
  next
    case False
    then have s: "show_nat n = show_nat (n div 10) @ [''0123456789'' ! (n mod 10)]"
      by (subst show_nat.simps) simp
    have m: "n mod 10 < 10" by simp
    from "1.IH" False have ih: "parse_index (show_nat (n div 10)) = Some (n div 10)" by simp
    from False have pos: "n div 10 \<noteq> 0" by simp
    let ?t = "show_nat (n div 10)"
    from ih have t: "?t \<noteq> []" "list_all is_digit ?t" "?t = ''0'' \<or> hd ?t \<noteq> CHR ''0''"
      and v: "foldl (\<lambda>a c. 10 * a + (of_char c - 48)) 0 ?t = n div 10"
      by (auto simp: parse_index_def split: if_splits)
    from v pos have "?t \<noteq> ''0''" by auto
    with t have hd: "hd ?t \<noteq> CHR ''0''" by simp
    show ?thesis
      unfolding s using t hd v digit_chars [OF m]
      by (simp add: parse_index_def)
  qed
qed

lemma show_nat_parse_index: "parse_index s = Some n \<Longrightarrow> show_nat n = s"
proof (induction s arbitrary: n rule: rev_induct)
  case Nil
  then show ?case by (simp add: parse_index_def)
next
  case (snoc c s)
  let ?val = "foldl (\<lambda>(a::nat) c. 10 * a + (of_char c - 48)) 0"
  from snoc.prems have d: "list_all is_digit s" "is_digit c"
    and canon: "s @ [c] = ''0'' \<or> hd (s @ [c]) \<noteq> CHR ''0''"
    and n: "n = 10 * ?val s + (of_char c - 48)"
    by (auto simp: parse_index_def split: if_splits)
  show ?case
  proof (cases "s = []")
    case True
    with n have "n = of_char c - 48" by simp
    with digit_value [OF d(2)] have "show_nat n = [''0123456789'' ! (of_char c - 48)]"
      by (subst show_nat.simps) simp
    with True char_of_digit [OF d(2)] show ?thesis by simp
  next
    case False
    with canon have hd: "hd s \<noteq> CHR ''0''" by (cases s) auto
    with False d(1) have p: "parse_index s = Some (?val s)" by (simp add: parse_index_def)
    from snoc.IH [OF p] have ih: "show_nat (?val s) = s" .
    have "?val s \<noteq> 0"
    proof
      assume "?val s = 0"
      with ih have "s = show_nat 0" by simp
      then have "s = ''0''" by (subst (asm) show_nat.simps) simp
      with hd show False by simp
    qed
    with n digit_value [OF d(2)] have "\<not> n < 10" "n div 10 = ?val s" "n mod 10 = of_char c - 48"
      by auto
    then have "show_nat n = show_nat (?val s) @ [''0123456789'' ! (of_char c - 48)]"
      by (subst show_nat.simps) simp
    with ih char_of_digit [OF d(2)] show ?thesis by simp
  qed
qed

lemma show_nat_inj: "show_nat i = show_nat j \<Longrightarrow> i = j"
  by (metis option.inject parse_index_show_nat)

lemma element_of_index:
  "element_of xs name =
     (case parse_index name of
        Some i \<Rightarrow> (if i < length xs then Some (Json (xs ! i)) else None)
      | None \<Rightarrow> None)"
proof (cases "\<exists>i < length xs. show_nat i = name")
  case True
  then obtain i where i: "i < length xs" "show_nat i = name" by blast
  then have p: "parse_index name = Some i" using parse_index_show_nat [of i] by simp
  from i have "i \<in> set (filter (\<lambda>i. show_nat i = name) [0 ..< length xs])" by simp
  then obtain j js where f: "filter (\<lambda>i. show_nat i = name) [0 ..< length xs] = j # js"
    by (cases "filter (\<lambda>i. show_nat i = name) [0 ..< length xs]") auto
  then have "j \<in> set (filter (\<lambda>i. show_nat i = name) [0 ..< length xs])" by simp
  then have "show_nat j = name" by simp
  with i have "j = i" using show_nat_inj by simp
  with f p i show ?thesis by (simp add: element_of_def)
next
  case False
  then have f: "filter (\<lambda>i. show_nat i = name) [0 ..< length xs] = []"
    by (auto simp: filter_empty_conv)
  show ?thesis
  proof (cases "parse_index name")
    case None
    with f show ?thesis by (simp add: element_of_def)
  next
    case (Some i)
    from show_nat_parse_index [OF Some] False have "\<not> i < length xs" by blast
    with f Some show ?thesis by (simp add: element_of_def)
  qed
qed

lemma field_of_map_of: "field_of kvs name = map_option Json (map_of kvs name)"
  by (induction kvs) (auto simp: field_of_def)

lemma proto_not_method:
  "''__proto__'' \<notin> set object_prototype_methods" "''__proto__'' \<notin> set array_prototype_methods"
  "''constructor'' \<notin> set object_prototype_methods" "''constructor'' \<notin> set array_prototype_methods"
  "''length'' \<notin> set object_prototype_methods" "''length'' \<notin> set array_prototype_methods"
  by (simp_all add: object_prototype_methods_def array_prototype_methods_def)

lemma parse_index_names: "parse_index ''length'' = None" "parse_index ''__proto__'' = None"
  by (simp_all add: parse_index_def is_digit_def)

lemma lookup_member_object_prototype:
  "lookup_member JObjectPrototype receiver name =
     (if name = ''__proto__'' then prototype_of receiver else object_member name)"
  by (subst lookup_member.simps) (simp add: object_member_def proto_not_method)

lemma lookup_member_array_prototype:
  "lookup_member JArrayPrototype receiver name =
     (if name = ''length'' then Json (JNum ''0'')
      else if name = ''__proto__'' then prototype_of receiver
      else array_member name)"
  by (subst lookup_member.simps)
     (simp add: array_member_def proto_not_method lookup_member_object_prototype)

lemma traversable_typeof:
  "traversable v \<longleftrightarrow> typeof v = ''object'' \<and> v \<noteq> Json JNull"
  by (cases v rule: typeof.cases) simp_all

lemma lookup_member_descend:
  assumes "traversable v"
  shows "lookup_member v v name = descend v name"
proof (cases v rule: traversable.cases)
  case (1 kvs)
  then show ?thesis
    by (subst lookup_member.simps)
       (simp add: field_of_map_of lookup_member_object_prototype split: option.splits)
next
  case (2 xs)
  then show ?thesis
    by (subst lookup_member.simps)
       (auto simp: element_of_index lookup_member_array_prototype proto_not_method
          parse_index_names split: option.splits)
next
  case 3
  then show ?thesis by (simp add: lookup_member_object_prototype)
next
  case 4
  then show ?thesis by (simp add: lookup_member_array_prototype)
qed (use assms in simp_all)

lemma getNestedValue_loop_walk:
  "getNestedValue_loop v parts = Inr (nested_lookup v parts)"
proof (induction parts arbitrary: v)
  case Nil
  show ?case by simp
next
  case (Cons part parts)
  show ?case
  proof (cases "traversable v")
    case True
    then have "get_prop v part = Inr (descend v part)"
      by (cases v rule: traversable.cases) (simp_all add: get_prop_def lookup_member_descend)
    with True Cons.IH [of "descend v part"] show ?thesis
      by (simp add: traversable_typeof)
  next
    case False
    then show ?thesis by (auto simp: traversable_typeof)
  qed
qed

lemma not_builtin:
  assumes "\<not> builtin_name name"
  shows "name \<noteq> ''length''" "name \<noteq> ''__proto__''" "object_member name = JUndefined"
    "array_member name = JUndefined"
  using assms by (auto simp: builtin_name_def object_member_def array_member_def)

lemma descend_spec:
  assumes "\<not> builtin_name name"
  shows "descend v name = (case spec_descend v name of None \<Rightarrow> JUndefined | Some x \<Rightarrow> x)"
  using not_builtin [OF assms]
  by (cases "(v, name)" rule: descend.cases) (simp_all split: option.splits)

lemma nested_lookup_spec:
  "list_all (\<lambda>name. \<not> builtin_name name) names \<Longrightarrow>
   nested_lookup v names = spec_lookup v names"
proof (induction names arbitrary: v)
  case Nil
  show ?case by simp
next
  case (Cons name names)
  then have nb: "\<not> builtin_name name" and rest: "list_all (\<lambda>name. \<not> builtin_name name) names"
    by simp_all
  have u: "nested_lookup JUndefined names = JUndefined" "spec_lookup JUndefined names = JUndefined"
    by (cases names, simp_all)+
  show ?case
  proof (cases "spec_traversable v")
    case True
    then have "traversable v" by (cases v rule: spec_traversable.cases) simp_all
    with True Cons.IH [OF rest] show ?thesis
      by (cases "spec_descend v name") (auto simp: descend_spec [OF nb] u)
  next
    case False
    then have "descend v name = JUndefined"
      using not_builtin [OF nb] by (cases "(v, name)" rule: descend.cases) simp_all
    with False show ?thesis by (simp add: u)
  qed
qed

subsection \<open>What the patterns match\<close>

text \<open>The matcher finds exactly the words of the language.\<close>

lemma matches_lang:
  "r \<in> set (matches re s) \<longleftrightarrow> (\<exists>w \<in> lang re. s = w @ r)"
proof (induction re s arbitrary: r rule: matches.induct)
  case (1 P)
  show ?case by auto
next
  case (2 P c cs)
  show ?case by auto
next
  case (3 a b s)
  show ?case
  proof
    assume "r \<in> set (matches (Cat a b) s)"
    then obtain r' where r': "r' \<in> set (matches a s)" and r: "r \<in> set (matches b r')" by auto
    from r' "3.IH"(1) obtain u where u: "u \<in> lang a" "s = u @ r'" by blast
    from r "3.IH"(2) [OF r'] obtain v where v: "v \<in> lang b" "r' = v @ r" by blast
    from u v have "u @ v \<in> lang (Cat a b)" "s = (u @ v) @ r" by auto
    then show "\<exists>w \<in> lang (Cat a b). s = w @ r" by blast
  next
    assume "\<exists>w \<in> lang (Cat a b). s = w @ r"
    then obtain u v where u: "u \<in> lang a" and v: "v \<in> lang b" and s: "s = u @ v @ r" by auto
    from u s "3.IH"(1) [of "v @ r"] have r': "v @ r \<in> set (matches a s)" by blast
    from v "3.IH"(2) [OF r', of r] have "r \<in> set (matches b (v @ r))" by blast
    with r' show "r \<in> set (matches (Cat a b) s)" by auto
  qed
next
  case (4 a b s)
  then show ?case by auto
next
  case (5 a s)
  show ?case
  proof
    assume "r \<in> set (matches (Star a) s)"
    then consider "r = s"
      | r' where "r' \<in> set (matches a s)" "length r' < length s" "r \<in> set (matches (Star a) r')"
      by (subst (asm) matches.simps(5)) auto
    then show "\<exists>w \<in> lang (Star a). s = w @ r"
    proof cases
      case 1
      then show ?thesis by (auto intro: star_empty)
    next
      case 2
      from 2(1) "5.IH"(1) obtain u where u: "u \<in> lang a" "s = u @ r'" by blast
      from 2 have "r' \<in> set (filter (\<lambda>r. length r < length s) (matches a s))" by simp
      from "5.IH"(2) [OF this] 2(3) obtain v where v: "v \<in> star (lang a)" "r' = v @ r" by auto
      from u v have "u @ v \<in> star (lang a)" "s = (u @ v) @ r" by (auto intro: star_step)
      then show ?thesis by auto
    qed
  next
    assume "\<exists>w \<in> lang (Star a). s = w @ r"
    then obtain w where w: "w \<in> star (lang a)" and s: "s = w @ r" by auto
    from w have "\<And>r. s = w @ r \<Longrightarrow> r \<in> set (matches (Star a) s)"
    proof (induction w rule: star.induct)
      case star_empty
      then show ?case by (subst matches.simps(5)) simp
    next
      case (star_step u v)
      show ?case
      proof (cases "u = []")
        case True
        with star_step show ?thesis by simp
      next
        case False
        from star_step.prems have s': "s = u @ (v @ r)" by simp
        with star_step.hyps(1) "5.IH"(1) [of "v @ r"]
        have m: "v @ r \<in> set (matches a s)" by blast
        from s' False have l: "length (v @ r) < length s" by simp
        from m l have f: "v @ r \<in> set (filter (\<lambda>r. length r < length s) (matches a s))" by simp
        from "5.IH"(2) [OF f, of r] star_step.hyps(2)
        have "r \<in> set (matches (Star a) (v @ r))" by auto
        with f show ?thesis by (subst matches.simps(5)) auto
      qed
    qed
    with s show "r \<in> set (matches (Star a) s)" by blast
  qed
qed

lemma star_cls: "star {[c] | c. P c} = {v. list_all P v}"
proof (intro set_eqI iffI)
  fix v
  assume "v \<in> star {[c] | c. P c}"
  then show "v \<in> {v. list_all P v}" by (induction rule: star.induct) auto
next
  fix v
  assume "v \<in> {v. list_all P v}"
  then have "list_all P v" by simp
  then show "v \<in> star {[c] | c. P c}"
  proof (induction v)
    case Nil
    show ?case by (rule star_empty)
  next
    case (Cons c v)
    then have "[c] \<in> {[c] | c. P c}" and "v \<in> star {[c] | c. P c}" by auto
    from star_step [OF this] show ?case by simp
  qed
qed

lemma key_char_dot_chars: "list_all key_char t \<Longrightarrow> list_all key_dot_char t"
  by (induction t) (simp_all add: key_dot_char_def)

lemma star_dot_chars:
  "v \<in> star {CHR ''.'' # t | t. list_all key_char t} \<Longrightarrow> list_all key_dot_char v"
proof (induction rule: star.induct)
  case star_empty
  show ?case by simp
next
  case (star_step u v)
  from star_step.hyps(1) obtain t where u: "u = CHR ''.'' # t" and t: "list_all key_char t"
    by blast
  have "key_dot_char CHR ''.''" by (simp add: key_dot_char_def)
  with u key_char_dot_chars [OF t] star_step.IH show ?case by simp
qed

lemma split_dot_chars:
  "list_all key_dot_char w \<Longrightarrow>
   \<exists>u v. w = u @ v \<and> list_all key_char u \<and> v \<in> star {CHR ''.'' # t | t. list_all key_char t}"
proof (induction w)
  case Nil
  have "[] = [] @ [] \<and> list_all key_char []
          \<and> [] \<in> star {CHR ''.'' # t | t. list_all key_char t}"
    by (simp add: star_empty)
  then show ?case by (intro exI)
next
  case (Cons c w)
  from Cons.prems have "list_all key_dot_char w" and c: "key_dot_char c" by simp_all
  from Cons.IH [OF this(1)] obtain u v where w: "w = u @ v" and u: "list_all key_char u"
    and v: "v \<in> star {CHR ''.'' # t | t. list_all key_char t}" by blast
  show ?case
  proof (cases "key_char c")
    case True
    with w u v have "c # w = (c # u) @ v \<and> list_all key_char (c # u)
          \<and> v \<in> star {CHR ''.'' # t | t. list_all key_char t}" by simp
    then show ?thesis by (intro exI)
  next
    case False
    with c have c: "c = CHR ''.''" by (simp add: key_dot_char_def)
    from u have "CHR ''.'' # u \<in> {CHR ''.'' # t | t. list_all key_char t}" by blast
    from star_step [OF this v] w c
    have "c # w = [] @ (c # w) \<and> list_all key_char []
          \<and> c # w \<in> star {CHR ''.'' # t | t. list_all key_char t}" by simp
    then show ?thesis by (intro exI)
  qed
qed

lemma lang_Cls_iff: "w \<in> lang (Cls P) \<longleftrightarrow> (\<exists>c. w = [c] \<and> P c)"
  by auto

lemma lang_Chr_iff: "w \<in> lang (Chr c) \<longleftrightarrow> w = [c]"
  by (auto simp: Chr_def)

lemma lang_Cat_iff: "w \<in> lang (Cat a b) \<longleftrightarrow> (\<exists>u v. w = u @ v \<and> u \<in> lang a \<and> v \<in> lang b)"
  by auto

lemma lang_Star_Cls_iff: "w \<in> lang (Star (Cls P)) \<longleftrightarrow> list_all P w"
proof -
  have "lang (Star (Cls P)) = star {[c] | c. P c}" by simp
  then show ?thesis unfolding star_cls by simp
qed

lemma lang_digits_iff: "k \<in> lang (Plus (Cls is_digit)) \<longleftrightarrow> k \<noteq> [] \<and> list_all is_digit k"
proof
  assume "k \<in> lang (Plus (Cls is_digit))"
  then obtain u v where "k = u @ v" "u \<in> lang (Cls is_digit)" "v \<in> lang (Star (Cls is_digit))"
    unfolding Plus_def lang_Cat_iff by blast
  then show "k \<noteq> [] \<and> list_all is_digit k"
    unfolding lang_Cls_iff lang_Star_Cls_iff by auto
next
  assume "k \<noteq> [] \<and> list_all is_digit k"
  then obtain c cs where "k = [c] @ cs" "is_digit c" "list_all is_digit cs"
    by (cases k) auto
  then have "k = [c] @ cs" "[c] \<in> lang (Cls is_digit)" "cs \<in> lang (Star (Cls is_digit))"
    unfolding lang_Cls_iff lang_Star_Cls_iff by auto
  then show "k \<in> lang (Plus (Cls is_digit))"
    unfolding Plus_def lang_Cat_iff by blast
qed

lemma lang_dot_segment:
  "lang (Cat (Chr CHR ''.'') (Star (Cls key_char))) = {CHR ''.'' # t | t. list_all key_char t}"
proof (rule set_eqI)
  fix w
  have "w \<in> lang (Cat (Chr CHR ''.'') (Star (Cls key_char)))
          \<longleftrightarrow> (\<exists>u v. w = u @ v \<and> u = [CHR ''.''] \<and> list_all key_char v)"
    unfolding lang_Cat_iff lang_Chr_iff lang_Star_Cls_iff ..
  then show "w \<in> lang (Cat (Chr CHR ''.'') (Star (Cls key_char)))
          \<longleftrightarrow> w \<in> {CHR ''.'' # t | t. list_all key_char t}"
    by auto
qed

lemma lang_tail_iff:
  "w \<in> lang (Cat (Star (Cls key_char)) (Star (Cat (Chr CHR ''.'') (Star (Cls key_char)))))
     \<longleftrightarrow> list_all key_dot_char w"
proof
  assume "w \<in> lang (Cat (Star (Cls key_char)) (Star (Cat (Chr CHR ''.'') (Star (Cls key_char)))))"
  then obtain u v where w: "w = u @ v" and u: "u \<in> lang (Star (Cls key_char))"
    and v: "v \<in> lang (Star (Cat (Chr CHR ''.'') (Star (Cls key_char))))"
    unfolding lang_Cat_iff [of w "Star (Cls key_char)"] by blast
  from u have "list_all key_char u" unfolding lang_Star_Cls_iff .
  then have "list_all key_dot_char u" by (rule key_char_dot_chars)
  moreover from v have "v \<in> star {CHR ''.'' # t | t. list_all key_char t}"
    unfolding lang.simps(4) [of "Cat (Chr CHR ''.'') (Star (Cls key_char))"] lang_dot_segment .
  then have "list_all key_dot_char v" by (rule star_dot_chars)
  ultimately show "list_all key_dot_char w" using w by simp
next
  assume "list_all key_dot_char w"
  from split_dot_chars [OF this] obtain u v where w: "w = u @ v" and u: "list_all key_char u"
    and v: "v \<in> star {CHR ''.'' # t | t. list_all key_char t}" by blast
  from u have u': "u \<in> lang (Star (Cls key_char))" unfolding lang_Star_Cls_iff .
  from v have v': "v \<in> lang (Star (Cat (Chr CHR ''.'') (Star (Cls key_char))))"
    unfolding lang.simps(4) [of "Cat (Chr CHR ''.'') (Star (Cls key_char))"] lang_dot_segment .
  from w u' v'
  show "w \<in> lang (Cat (Star (Cls key_char)) (Star (Cat (Chr CHR ''.'') (Star (Cls key_char)))))"
    unfolding lang_Cat_iff [of w "Star (Cls key_char)"] by blast
qed

lemma lang_ident_iff:
  "k \<in> lang (Cat (Cls ident_start)
              (Cat (Star (Cls key_char)) (Star (Cat (Chr CHR ''.'') (Star (Cls key_char))))))
     \<longleftrightarrow> k \<noteq> [] \<and> ident_start (hd k) \<and> list_all key_dot_char (tl k)"
proof
  assume "k \<in> lang (Cat (Cls ident_start)
              (Cat (Star (Cls key_char)) (Star (Cat (Chr CHR ''.'') (Star (Cls key_char))))))"
  then obtain u v where "k = u @ v" and "u \<in> lang (Cls ident_start)"
    and "v \<in> lang (Cat (Star (Cls key_char)) (Star (Cat (Chr CHR ''.'') (Star (Cls key_char)))))"
    unfolding lang_Cat_iff [of k "Cls ident_start"] by blast
  then show "k \<noteq> [] \<and> ident_start (hd k) \<and> list_all key_dot_char (tl k)"
    unfolding lang_Cls_iff lang_tail_iff by auto
next
  assume "k \<noteq> [] \<and> ident_start (hd k) \<and> list_all key_dot_char (tl k)"
  then obtain c t where k: "k = [c] @ t" and "ident_start c" and "list_all key_dot_char t"
    by (cases k) auto
  then have "[c] \<in> lang (Cls ident_start)"
    and "t \<in> lang (Cat (Star (Cls key_char)) (Star (Cat (Chr CHR ''.'') (Star (Cls key_char)))))"
    unfolding lang_Cls_iff lang_tail_iff by auto
  with k show "k \<in> lang (Cat (Cls ident_start)
              (Cat (Star (Cls key_char)) (Star (Cat (Chr CHR ''.'') (Star (Cls key_char))))))"
    unfolding lang_Cat_iff [of k "Cls ident_start"] by blast
qed

lemma lang_key_regex_iff: "k \<in> lang key_regex \<longleftrightarrow> is_key k"
  unfolding key_regex_def lang.simps(3) Un_iff lang_digits_iff lang_ident_iff is_key_def
  by blast

lemma brace_classes [simp]:
  "\<not> is_digit (CHR ''}'')" "\<not> key_dot_char (CHR ''}'')" "\<not> ident_start (CHR ''}'')"
  "\<not> is_digit (CHR ''{'')" "\<not> key_dot_char (CHR ''{'')" "\<not> ident_start (CHR ''{'')"
  by (simp_all add: key_dot_char_def key_char_def is_word_def is_alpha_def is_digit_def
        ident_start_def)

lemma digit_key_dot_char: "is_digit c \<Longrightarrow> key_dot_char c"
  by (simp add: key_dot_char_def key_char_def is_word_def)

lemma ident_start_key_dot_char: "ident_start c \<Longrightarrow> key_dot_char c"
  by (auto simp: key_dot_char_def key_char_def is_word_def ident_start_def)

lemma is_key_chars: "is_key k \<Longrightarrow> list_all key_dot_char k"
  by (cases k) (auto simp: is_key_def list_all_iff digit_key_dot_char ident_start_key_dot_char)

lemma is_key_no_brace: "is_key k \<Longrightarrow> CHR ''{'' \<notin> set k \<and> CHR ''}'' \<notin> set k"
  using is_key_chars [of k] by (auto simp: list_all_iff)

lemma braces_pos [simp]: "0 < braces rx"
  by (cases rx) simp_all

lemma close_braces_Cons: "close_braces rx = CHR ''}'' # replicate (braces rx - 1) CHR ''}''"
  by (cases rx) (simp_all add: close_braces_def numeral_2_eq_2)

lemma open_braces_Cons: "open_braces rx = CHR ''{'' # replicate (braces rx - 1) CHR ''{''"
  by (cases rx) (simp_all add: open_braces_def numeral_2_eq_2)

lemma takeWhile_until: "c \<notin> set a \<Longrightarrow> takeWhile (\<lambda>x. x \<noteq> c) (a @ c # r) = a"
  by (induction a) auto

lemma same_body:
  assumes "a @ CHR ''}'' # x = b @ CHR ''}'' # y" and "CHR ''}'' \<notin> set a" and "CHR ''}'' \<notin> set b"
  shows "a = b \<and> x = y"
proof -
  have "takeWhile (\<lambda>c. c \<noteq> CHR ''}'') (a @ CHR ''}'' # x) = a"
    using assms(2) by (rule takeWhile_until)
  moreover have "takeWhile (\<lambda>c. c \<noteq> CHR ''}'') (b @ CHR ''}'' # y) = b"
    using assms(3) by (rule takeWhile_until)
  ultimately have "a = b" using assms(1) by simp
  with assms(1) show ?thesis by simp
qed

lemma length_braces [simp]:
  "length (open_braces rx) = braces rx" "length (close_braces rx) = braces rx"
  by (simp_all add: open_braces_def close_braces_def)

lemma lang_pattern_iff:
  "w \<in> lang (pattern_regex rx) \<longleftrightarrow> (\<exists>k. is_key k \<and> w = open_braces rx @ k @ close_braces rx)"
proof (cases rx)
  case doubleBraces
  have "w \<in> lang (pattern_regex doubleBraces) \<longleftrightarrow> (\<exists>k. is_key k \<and> w = ''{{'' @ k @ ''}}'')"
    unfolding pattern_regex.simps lang_Cat_iff lang_Chr_iff lang_key_regex_iff by auto
  then show ?thesis
    by (simp add: doubleBraces open_braces_def close_braces_def numeral_2_eq_2)
next
  case singleBraces
  have "w \<in> lang (pattern_regex singleBraces) \<longleftrightarrow> (\<exists>k. is_key k \<and> w = ''{'' @ k @ ''}'')"
    unfolding pattern_regex.simps lang_Cat_iff lang_Chr_iff lang_key_regex_iff by auto
  then show ?thesis
    by (simp add: singleBraces open_braces_def close_braces_def)
qed

lemma pattern_match_unique:
  assumes "is_key k" and "is_key k'"
    and "open_braces rx @ k @ close_braces rx @ r = open_braces rx @ k' @ close_braces rx @ r'"
  shows "k = k' \<and> r = r'"
proof -
  obtain cl where cl: "close_braces rx = CHR ''}'' # cl" by (simp add: close_braces_Cons)
  from assms(3) have "k @ CHR ''}'' # (cl @ r) = k' @ CHR ''}'' # (cl @ r')" by (simp add: cl)
  from same_body [OF this] is_key_no_brace [OF assms(1)] is_key_no_brace [OF assms(2)]
  show ?thesis by simp
qed

lemma rx_exec_SomeD:
  assumes "rx_exec rx s = Some (ph, k)"
  shows "is_key k \<and> ph = open_braces rx @ k @ close_braces rx \<and> (\<exists>r. s = ph @ r)"
proof -
  from assms obtain rest others where m: "matches (pattern_regex rx) s = rest # others"
    by (auto simp: rx_exec_def split: list.splits)
  then have "rest \<in> set (matches (pattern_regex rx) s)" by simp
  then obtain w where w: "w \<in> lang (pattern_regex rx)" and s: "s = w @ rest"
    unfolding matches_lang by blast
  from w obtain k' where k': "is_key k'" and w': "w = open_braces rx @ k' @ close_braces rx"
    unfolding lang_pattern_iff by blast
  from s have t: "take (length s - length rest) s = w" by simp
  from assms m t have ph: "ph = w"
    and k: "k = take (length w - 2 * braces rx) (drop (braces rx) w)"
    by (auto simp: rx_exec_def Let_def)
  from k have "k = k'" by (simp add: w')
  with k' w' ph s show ?thesis by blast
qed

lemma rx_exec_SomeI:
  assumes "is_key k"
  shows "rx_exec rx (open_braces rx @ k @ close_braces rx @ r)
           = Some (open_braces rx @ k @ close_braces rx, k)"
proof -
  let ?w = "open_braces rx @ k @ close_braces rx"
  let ?s = "?w @ r"
  have "?w \<in> lang (pattern_regex rx)" unfolding lang_pattern_iff using assms by blast
  then have "r \<in> set (matches (pattern_regex rx) ?s)" unfolding matches_lang by blast
  then obtain rest others where m: "matches (pattern_regex rx) ?s = rest # others"
    by (cases "matches (pattern_regex rx) ?s") auto
  then have "rest \<in> set (matches (pattern_regex rx) ?s)" by simp
  then obtain w' where w': "w' \<in> lang (pattern_regex rx)" and s: "?s = w' @ rest"
    unfolding matches_lang by blast
  from w' obtain k' where k': "is_key k'" and e: "w' = open_braces rx @ k' @ close_braces rx"
    unfolding lang_pattern_iff by blast
  from s e have "open_braces rx @ k @ close_braces rx @ r
                   = open_braces rx @ k' @ close_braces rx @ rest" by simp
  from pattern_match_unique [OF assms k' this] have "rest = r" by simp
  with m have "rx_exec rx ?s = Some (?w, k)"
    by (simp add: rx_exec_def Let_def)
  then show ?thesis by simp
qed

lemma rx_exec_short: "length s < 3 \<Longrightarrow> rx_exec rx s = None"
proof (cases "rx_exec rx s")
  case None then show ?thesis .
next
  case (Some m)
  assume l: "length s < 3"
  obtain ph k where "m = (ph, k)" by (cases m)
  with Some have "rx_exec rx s = Some (ph, k)" by simp
  from rx_exec_SomeD [OF this] obtain r where "is_key k"
    and "s = open_braces rx @ k @ close_braces rx @ r" by auto
  then have "3 \<le> length s"
    by (cases k) (auto simp: is_key_def open_braces_Cons close_braces_Cons)
  with l show ?thesis by simp
qed

lemma rx_exec_iff:
  "rx_exec rx s = Some (ph, k) \<longleftrightarrow>
     is_key k \<and> ph = open_braces rx @ k @ close_braces rx \<and> (\<exists>r. s = ph @ r)"
proof
  assume "rx_exec rx s = Some (ph, k)"
  then show "is_key k \<and> ph = open_braces rx @ k @ close_braces rx \<and> (\<exists>r. s = ph @ r)"
    by (rule rx_exec_SomeD)
next
  assume a: "is_key k \<and> ph = open_braces rx @ k @ close_braces rx \<and> (\<exists>r. s = ph @ r)"
  then obtain r where "s = open_braces rx @ k @ close_braces rx @ r" by auto
  with a rx_exec_SomeI [of k rx r] show "rx_exec rx s = Some (ph, k)" by simp
qed

lemma rx_exec_not_brace: "c \<noteq> CHR ''{'' \<Longrightarrow> rx_exec rx (c # cs) = None"
proof (cases "rx_exec rx (c # cs)")
  case None then show ?thesis by simp
next
  case (Some m)
  assume c: "c \<noteq> CHR ''{''"
  obtain ph k where "m = (ph, k)" by (cases m)
  with Some have "rx_exec rx (c # cs) = Some (ph, k)" by simp
  from rx_exec_SomeD [OF this] obtain r where "c # cs = open_braces rx @ k @ close_braces rx @ r"
    by auto
  then have "c = CHR ''{''" by (simp add: open_braces_Cons)
  with c show ?thesis by simp
qed

subsection \<open>Scanning\<close>

lemma replace_all_match:
  assumes "is_key k"
  shows "replace_all rx fn (open_braces rx @ k @ close_braces rx @ r) =
           bind_io (fn (open_braces rx @ k @ close_braces rx) k) (\<lambda>rep.
           bind_io (replace_all rx fn r) (\<lambda>out. ret (rep @ out)))"
proof -
  let ?ph = "open_braces rx @ k @ close_braces rx"
  obtain ph' where ph': "?ph = CHR ''{'' # ph'" by (simp add: open_braces_Cons)
  define t where "t = ph' @ r"
  have t: "?ph @ r = CHR ''{'' # t" using ph' by (simp add: t_def)
  have d: "drop (length ?ph - 1) t = r" unfolding ph' t_def by simp
  have "rx_exec rx (CHR ''{'' # t) = Some (?ph, k)"
    using rx_exec_SomeI [OF assms, of rx r] t by simp
  then have "replace_all rx fn (CHR ''{'' # t) =
           bind_io (fn ?ph k) (\<lambda>rep.
           bind_io (replace_all rx fn (drop (length ?ph - 1) t)) (\<lambda>out. ret (rep @ out)))"
    by simp
  with t d show ?thesis by (simp del: replace_all.simps)
qed

lemma replace_all_no_match: "\<not> rx_test rx s \<Longrightarrow> replace_all rx fn s = ret s"
  by (induction s) (auto split: option.splits)

subsection \<open>The replacer and the two passes\<close>

lemma replace_outcome:
  "snd (replace options d ph k) =
     (if lookup_transformed options d k = JUndefined then
        (if ignoreMissing options then Inr ph else Inl (MissingValueError k))
      else to_string (lookup_transformed options d k))"
proof -
  obtain v where v: "getNestedValue d k = Inr v" using getNestedValue_total by blast
  show ?thesis
    by (cases "transform options")
       (simp_all add: replace_def call_transform_def lookup_transformed_def v snd_bind_io)
qed

lemma collect_error: "collect rs = Inl e \<Longrightarrow> Inl e \<in> set rs"
  by (induction rs) (auto split: sum.splits)

lemma json_to_string_error: "json_to_string j = Inl e \<Longrightarrow> e = cannot_convert"
proof (induction j rule: json_to_string.induct)
  case (5 xs)
  let ?rs = "map (\<lambda>x. if x = JNull then Inr [] else json_to_string x) xs"
  from "5.prems" have "collect ?rs = Inl e" by (simp split: sum.splits)
  from collect_error [OF this] obtain x where "x \<in> set xs" "x \<noteq> JNull" "json_to_string x = Inl e"
    by (auto split: if_splits)
  with "5.IH" show ?case by blast
qed (simp_all split: if_splits)

lemma to_string_error: "to_string v = Inl e \<Longrightarrow> e = cannot_convert"
  by (cases v) (simp_all add: json_to_string_error)

lemma withEscape_outcome:
  "snd (withEscape fn ph k) = (case snd (fn ph k) of Inl e \<Rightarrow> Inl e | Inr s \<Rightarrow> Inr (htmlEscape s))"
  by (simp add: withEscape_def snd_bind_io split: sum.splits)

lemma replace_all_error:
  "snd (replace_all rx fn s) = Inl e \<Longrightarrow> \<exists>ph k. is_key k \<and> snd (fn ph k) = Inl e"
proof (induction rx fn s rule: replace_all.induct)
  case (1 rx fn)
  then show ?case by simp
next
  case (2 rx fn c cs)
  show ?case
  proof (cases "rx_exec rx (c # cs)")
    case None
    with "2.prems" have "snd (replace_all rx fn cs) = Inl e"
      by (simp add: snd_bind_io split: sum.splits)
    with "2.IH"(1) [OF None] show ?thesis .
  next
    case (Some m)
    obtain ph k where m: "m = (ph, k)" by (cases m)
    with Some have x: "rx_exec rx (c # cs) = Some (ph, k)" by simp
    then have key: "is_key k" using rx_exec_SomeD by blast
    show ?thesis
    proof (cases "snd (fn ph k)")
      case (Inl e')
      with "2.prems" x have "e' = e" by (simp add: snd_bind_io)
      with Inl key show ?thesis by blast
    next
      case (Inr rep)
      with "2.prems" x have "snd (replace_all rx fn (drop (length ph - 1) cs)) = Inl e"
        by (simp add: snd_bind_io split: sum.splits)
      with "2.IH"(2) [OF x refl] show ?thesis by blast
    qed
  qed
qed

subsection \<open>A placeholder at the head of the text\<close>

lemma open_close_simps:
  "open_braces singleBraces = ''{''" "close_braces singleBraces = ''}''"
  "open_braces doubleBraces = ''{{''" "close_braces doubleBraces = ''}}''"
  by (simp_all add: open_braces_def close_braces_def numeral_2_eq_2)

lemma replace_all_no_open:
  "CHR ''{'' \<notin> set s \<Longrightarrow>
   replace_all rx fn (s @ rest) = bind_io (replace_all rx fn rest) (\<lambda>out. ret (s @ out))"
proof (induction s)
  case Nil
  show ?case by simp
next
  case (Cons c s)
  from Cons.prems have "c \<noteq> CHR ''{''" by auto
  then have "rx_exec rx (c # s @ rest) = None" by (rule rx_exec_not_brace)
  with Cons show ?case by (simp add: bind_io_assoc)
qed

lemma rx_exec_single_brace_brace:
  "b = CHR ''{'' \<or> b = CHR ''}'' \<Longrightarrow> rx_exec singleBraces (CHR ''{'' # b # cs) = None"
proof (cases "rx_exec singleBraces (CHR ''{'' # b # cs)")
  case None then show ?thesis by simp
next
  case (Some m)
  assume b: "b = CHR ''{'' \<or> b = CHR ''}''"
  obtain ph k where "m = (ph, k)" by (cases m)
  with Some have "rx_exec singleBraces (CHR ''{'' # b # cs) = Some (ph, k)" by simp
  from rx_exec_SomeD [OF this] obtain r where k: "is_key k"
    and "CHR ''{'' # b # cs = ''{'' @ k @ ''}'' @ r"
    by (auto simp: open_close_simps)
  then have "b \<in> set k" by (cases k) (auto simp: is_key_def)
  with is_key_no_brace [OF k] b show ?thesis by auto
qed

lemma rx_exec_double_needs_two:
  "b \<noteq> CHR ''{'' \<Longrightarrow> rx_exec doubleBraces (CHR ''{'' # b # cs) = None"
proof (cases "rx_exec doubleBraces (CHR ''{'' # b # cs)")
  case None then show ?thesis by simp
next
  case (Some m)
  assume b: "b \<noteq> CHR ''{''"
  obtain ph k where "m = (ph, k)" by (cases m)
  with Some have "rx_exec doubleBraces (CHR ''{'' # b # cs) = Some (ph, k)" by simp
  from rx_exec_SomeD [OF this] obtain r where
    "CHR ''{'' # b # cs = ''{{'' @ k @ ''}}'' @ r"
    by (auto simp: open_close_simps)
  with b show ?thesis by simp
qed

lemma is_key_hd: "is_key k \<Longrightarrow> \<exists>c cs. k = c # cs \<and> c \<noteq> CHR ''{'' \<and> c \<noteq> CHR ''}''"
  using is_key_no_brace [of k] by (cases k) (auto simp: is_key_def)

lemma first_pass_escaped:
  assumes "is_key k"
  shows "replace_all doubleBraces fn (''{{'' @ k @ ''}}'' @ rest) =
           bind_io (fn (''{{'' @ k @ ''}}'') k) (\<lambda>rep.
           bind_io (replace_all doubleBraces fn rest) (\<lambda>out. ret (rep @ out)))"
  using replace_all_match [OF assms, of doubleBraces fn rest]
  by (simp add: open_close_simps del: replace_all.simps)

lemma second_pass_raw:
  assumes "is_key k"
  shows "replace_all singleBraces fn (''{'' @ k @ ''}'' @ rest) =
           bind_io (fn (''{'' @ k @ ''}'') k) (\<lambda>rep.
           bind_io (replace_all singleBraces fn rest) (\<lambda>out. ret (rep @ out)))"
  using replace_all_match [OF assms, of singleBraces fn rest]
  by (simp add: open_close_simps del: replace_all.simps)

lemma second_pass_kept_escaped:
  assumes "is_key k"
  shows "replace_all singleBraces fn (''{{'' @ k @ ''}}'' @ rest) =
           bind_io (fn (''{'' @ k @ ''}'') k) (\<lambda>rep.
           bind_io (replace_all singleBraces fn rest) (\<lambda>out. ret (''{'' @ rep @ ''}'' @ out)))"
proof -
  have n: "rx_exec singleBraces (CHR ''{'' # CHR ''{'' # k @ ''}}'' @ rest) = None"
    by (rule rx_exec_single_brace_brace) simp
  have "replace_all singleBraces fn (''{'' @ k @ ''}'' @ (''}'' @ rest)) =
           bind_io (fn (''{'' @ k @ ''}'') k) (\<lambda>rep.
           bind_io (replace_all singleBraces fn (''}'' @ rest)) (\<lambda>out. ret (rep @ out)))"
    by (rule second_pass_raw [OF assms])
  moreover have "replace_all singleBraces fn (''}'' @ rest) =
           bind_io (replace_all singleBraces fn rest) (\<lambda>out. ret (''}'' @ out))"
    by (rule replace_all_no_open) simp
  ultimately have "replace_all singleBraces fn (CHR ''{'' # k @ ''}}'' @ rest) =
           bind_io (fn (''{'' @ k @ ''}'') k) (\<lambda>rep.
           bind_io (replace_all singleBraces fn rest) (\<lambda>out. ret (rep @ ''}'' @ out)))"
    by (simp add: bind_io_assoc del: replace_all.simps)
  with n show ?thesis by (simp add: bind_io_assoc)
qed

lemma snd_bind_ret:
  "snd (bind_io m (\<lambda>out. ret (f out))) = (case snd m of Inl e \<Rightarrow> Inl e | Inr out \<Rightarrow> Inr (f out))"
  by (simp add: snd_bind_io split: sum.splits)

lemma escape_char_key: "key_dot_char c \<Longrightarrow> escape_char c = [c]"
  by (auto simp: escape_char_def key_dot_char_def key_char_def is_word_def is_alpha_def is_digit_def)

lemma htmlEscape_append: "htmlEscape (a @ b) = htmlEscape a @ htmlEscape b"
  by (simp add: htmlEscape_def)

lemma htmlEscape_key: "list_all key_dot_char k \<Longrightarrow> htmlEscape k = k"
  by (induction k) (simp_all add: htmlEscape_def escape_char_key)

lemma htmlEscape_placeholder:
  "is_key k \<Longrightarrow> htmlEscape (''{{'' @ k @ ''}}'') = ''{{'' @ k @ ''}}''"
proof -
  assume "is_key k"
  then have "htmlEscape k = k" by (simp add: htmlEscape_key is_key_chars)
  moreover have "htmlEscape ''{{'' = ''{{''" "htmlEscape ''}}'' = ''}}''"
    by (simp_all add: htmlEscape_def escape_char_def)
  ultimately show ?thesis by (simp only: htmlEscape_append)
qed

lemma escaped_replace_outcome:
  assumes "is_key k"
  shows "snd (withEscape (replace options d) (''{{'' @ k @ ''}}'') k) =
     (if missing options d k then
        (if ignoreMissing options then Inr (''{{'' @ k @ ''}}'') else Inl (MissingValueError k))
      else (case to_string (lookup_transformed options d k) of
              Inl e \<Rightarrow> Inl e
            | Inr s \<Rightarrow> Inr (htmlEscape s)))"
  using htmlEscape_placeholder [OF assms]
  by (simp add: withEscape_outcome replace_outcome missing_def)

lemma holma_guard:
  "holma template schema data options = holma_first_pass_always template schema data options"
proof -
  have "\<And>fn. (if rx_test doubleBraces (str_of template)
               then replace_all doubleBraces fn (str_of template)
               else ret (str_of template)) = replace_all doubleBraces fn (str_of template)"
    by (simp add: replace_all_no_match)
  then show ?thesis by (simp add: holma_def holma_first_pass_always_def)
qed

subsection \<open>The calls of the transform hook\<close>

lemma fst_bind_ret: "fst (bind_io m (\<lambda>out. ret (f out))) = fst m"
  by (simp add: fst_bind_io split: sum.splits)

lemma replace_events: "fst (replace options d ph k) = key_events options d k"
proof -
  obtain v where v: "getNestedValue d k = Inr v" using getNestedValue_total by blast
  show ?thesis
    by (cases "transform options")
       (simp_all add: key_events_def replace_def call_transform_def v fst_bind_io ret_def throw_def)
qed

lemma withEscape_events: "fst (withEscape fn ph k) = fst (fn ph k)"
  by (simp add: withEscape_def fst_bind_ret)

subsection \<open>A placeholder in any context\<close>

lemma rx_exec_extend:
  "rx_exec rx p = Some (ph, k) \<Longrightarrow> rx_exec rx (p @ R) = Some (ph, k)"
  by (auto simp: rx_exec_iff)

lemma rx_exec_restrict:
  assumes "rx_exec rx (p @ R) = Some (ph, k)" and "length ph \<le> length p"
  shows "rx_exec rx p = Some (ph, k)"
proof -
  from assms(1) obtain r where k: "is_key k" and ph: "ph = open_braces rx @ k @ close_braces rx"
    and e: "p @ R = ph @ r" by (auto simp: rx_exec_iff)
  from e assms(2) have "p = ph @ drop (length ph) p"
    by (metis append_eq_append_conv_if append_take_drop_id)
  with k ph show ?thesis unfolding rx_exec_iff by blast
qed

lemma overlap_split:
  assumes "p @ R = ph @ r" and "length p < length ph"
  shows "\<exists>ph2. ph = p @ ph2 \<and> ph2 \<noteq> [] \<and> R = ph2 @ r"
proof -
  from assms(1) obtain us where "(p = ph @ us \<and> us @ R = r) \<or> (p @ us = ph \<and> R = us @ r)"
    unfolding append_eq_append_conv2 by blast
  with assms(2) have "p @ us = ph \<and> R = us @ r" by auto
  with assms(2) show ?thesis by (intro exI [of _ us]) auto
qed

lemma single_overlap:
  assumes "rx_exec singleBraces (p @ CHR ''{'' # r) = Some (ph, k)" and "p \<noteq> []"
  shows "length ph \<le> length p"
proof (rule ccontr)
  assume "\<not> length ph \<le> length p"
  then have lt: "length p < length ph" by simp
  from assms(1) obtain r' where k: "is_key k" and ph: "ph = ''{'' @ k @ ''}''"
    and e: "p @ CHR ''{'' # r = ph @ r'" by (auto simp: rx_exec_iff open_close_simps)
  from overlap_split [OF e lt] obtain ph2 where s: "ph = p @ ph2" and n: "ph2 \<noteq> []"
    and R: "CHR ''{'' # r = ph2 @ r'" by blast
  from n R obtain t where ph2: "ph2 = CHR ''{'' # t" by (cases ph2) auto
  from assms(2) obtain c p' where p: "p = c # p'" by (cases p) auto
  from s ph p ph2 have "k @ ''}'' = p' @ CHR ''{'' # t" by simp
  then have "CHR ''{'' \<in> set (k @ ''}'')" by simp
  with is_key_no_brace [OF k] show False by simp
qed

lemma double_overlap:
  assumes "rx_exec doubleBraces (p @ CHR ''{'' # r) = Some (ph, k)" and "p \<noteq> []"
    and "length p < length ph"
  shows "p = ''{'' \<and> (\<exists>r'. r = k @ ''}}'' @ r')"
proof -
  from assms(1) obtain r' where k: "is_key k" and ph: "ph = ''{{'' @ k @ ''}}''"
    and e: "p @ CHR ''{'' # r = ph @ r'" by (auto simp: rx_exec_iff open_close_simps)
  from overlap_split [OF e assms(3)] obtain ph2 where s: "ph = p @ ph2" and n: "ph2 \<noteq> []"
    and R: "CHR ''{'' # r = ph2 @ r'" by blast
  from n R obtain t where ph2: "ph2 = CHR ''{'' # t" and r: "r = t @ r'" by (cases ph2) auto
  from assms(2) obtain c p' where p: "p = c # p'" by (cases p) auto
  from s ph p ph2 have c: "c = CHR ''{''" and x: "CHR ''{'' # k @ ''}}'' = p' @ CHR ''{'' # t"
    by auto
  have "p' = []"
  proof (cases p')
    case Nil then show ?thesis .
  next
    case (Cons c' p'')
    with x have "k @ ''}}'' = p'' @ CHR ''{'' # t" by simp
    then have "CHR ''{'' \<in> set (k @ ''}}'')" by simp
    with is_key_no_brace [OF k] show ?thesis by simp
  qed
  with x have "t = k @ ''}}''" by simp
  with r have "r = k @ ''}}'' @ r'" by simp
  with p c \<open>p' = []\<close> show ?thesis by blast
qed

lemma replace_all_append:
  assumes "\<And>q p ph k. pre = q @ p \<Longrightarrow> p \<noteq> [] \<Longrightarrow> rx_exec rx (p @ R) = Some (ph, k)
             \<Longrightarrow> length ph \<le> length p"
  shows "replace_all rx fn (pre @ R) =
           bind_io (replace_all rx fn pre) (\<lambda>a.
           bind_io (replace_all rx fn R) (\<lambda>b. ret (a @ b)))"
  using assms
proof (induction rx fn pre rule: replace_all.induct)
  case (1 rx fn)
  show ?case by simp
next
  case (2 rx fn c cs)
  have seal: "\<And>ph k. rx_exec rx ((c # cs) @ R) = Some (ph, k) \<Longrightarrow> length ph \<le> length (c # cs)"
    using "2.prems" [of "[]" "c # cs"] by simp
  show ?case
  proof (cases "rx_exec rx (c # cs)")
    case None
    have n: "rx_exec rx (c # cs @ R) = None"
    proof (cases "rx_exec rx (c # cs @ R)")
      case None then show ?thesis .
    next
      case (Some m)
      obtain ph k where "m = (ph, k)" by (cases m)
      with Some have x: "rx_exec rx ((c # cs) @ R) = Some (ph, k)" by simp
      from rx_exec_restrict [OF x seal [OF x]] None show ?thesis by simp
    qed
    have "replace_all rx fn (cs @ R) =
           bind_io (replace_all rx fn cs) (\<lambda>a.
           bind_io (replace_all rx fn R) (\<lambda>b. ret (a @ b)))"
    proof (rule "2.IH"(1) [OF None])
      fix q p ph k
      assume "cs = q @ p" "p \<noteq> []" "rx_exec rx (p @ R) = Some (ph, k)"
      then show "length ph \<le> length p" using "2.prems" [of "c # q" p ph k] by simp
    qed
    with None n show ?thesis by (simp add: bind_io_assoc)
  next
    case (Some m)
    obtain ph k where m: "m = (ph, k)" by (cases m)
    with Some have x: "rx_exec rx (c # cs) = Some (ph, k)" by simp
    then have y: "rx_exec rx (c # cs @ R) = Some (ph, k)"
      using rx_exec_extend [of rx "c # cs" ph k R] by simp
    from x obtain r where "c # cs = ph @ r" "ph \<noteq> []"
      by (auto simp: rx_exec_iff open_braces_Cons)
    then have len: "length ph - 1 \<le> length cs"
      by (metis One_nat_def diff_Suc_1 diff_le_mono length_Cons length_append le_add1)
    have "replace_all rx fn (drop (length ph - 1) cs @ R) =
           bind_io (replace_all rx fn (drop (length ph - 1) cs)) (\<lambda>a.
           bind_io (replace_all rx fn R) (\<lambda>b. ret (a @ b)))"
    proof (rule "2.IH"(2) [OF x refl])
      fix q p ph' k'
      assume a: "drop (length ph - 1) cs = q @ p" "p \<noteq> []" "rx_exec rx (p @ R) = Some (ph', k')"
      have "c # cs = (c # take (length ph - 1) cs @ q) @ p"
        using a(1) by (metis append_Cons append_assoc append_take_drop_id)
      then show "length ph' \<le> length p" using "2.prems" a(2,3) by blast
    qed
    with x y len show ?thesis by (simp add: bind_io_assoc)
  qed
qed

lemma replace_all_append_outcome:
  assumes "\<And>q p ph k. pre = q @ p \<Longrightarrow> p \<noteq> [] \<Longrightarrow> rx_exec rx (p @ R) = Some (ph, k)
             \<Longrightarrow> length ph \<le> length p"
  shows "snd (replace_all rx fn (pre @ R)) =
           (case snd (replace_all rx fn pre) of
              Inl e \<Rightarrow> Inl e
            | Inr a \<Rightarrow>
                (case snd (replace_all rx fn R) of
                   Inl e \<Rightarrow> Inl e
                 | Inr b \<Rightarrow> Inr (a @ b)))"
proof -
  have "replace_all rx fn (pre @ R) =
           bind_io (replace_all rx fn pre) (\<lambda>a.
           bind_io (replace_all rx fn R) (\<lambda>b. ret (a @ b)))"
    by (rule replace_all_append) (rule assms, assumption+)
  then show ?thesis by (simp add: snd_bind_io split: sum.splits)
qed

lemma second_pass_split:
  "replace_all singleBraces fn (pre @ CHR ''{'' # r) =
           bind_io (replace_all singleBraces fn pre) (\<lambda>a.
           bind_io (replace_all singleBraces fn (CHR ''{'' # r)) (\<lambda>b. ret (a @ b)))"
  by (rule replace_all_append) (rule single_overlap)

lemma second_pass_append:
  "snd (replace_all singleBraces fn (pre @ CHR ''{'' # r)) =
           (case snd (replace_all singleBraces fn pre) of
              Inl e \<Rightarrow> Inl e
            | Inr a \<Rightarrow>
                (case snd (replace_all singleBraces fn (CHR ''{'' # r)) of
                   Inl e \<Rightarrow> Inl e
                 | Inr b \<Rightarrow> Inr (a @ b)))"
  by (rule replace_all_append_outcome) (rule single_overlap)

lemma holma_outcome:
  assumes "schema data = VValue d"
  shows "snd (holma (Json (JStr t)) schema data options) =
           (case snd (replace_all doubleBraces (withEscape (replace options d)) t) of
              Inl e \<Rightarrow> Inl e
            | Inr result \<Rightarrow> snd (replace_all singleBraces (replace options d) result))"
  using assms
  by (simp add: holma_guard holma_first_pass_always_def validateSchema_def snd_bind_io str_of_def)

lemma first_pass_keeps_single:
  assumes "CHR ''{'' \<notin> set body"
  shows "replace_all doubleBraces fn (''{'' @ body @ ''}'' @ rest) =
           bind_io (replace_all doubleBraces fn rest) (\<lambda>out. ret (''{'' @ body @ ''}'' @ out))"
proof -
  obtain c cs where k: "body @ ''}'' @ rest = c # cs" and c: "c \<noteq> CHR ''{''"
    using assms by (cases body) auto
  have "rx_exec doubleBraces (CHR ''{'' # c # cs) = None"
    using c by (rule rx_exec_double_needs_two)
  then have n: "rx_exec doubleBraces (CHR ''{'' # body @ ''}'' @ rest) = None"
    using k by simp
  have "CHR ''{'' \<notin> set (body @ ''}'')" using assms by simp
  from replace_all_no_open [OF this, of doubleBraces fn rest]
  have "replace_all doubleBraces fn (body @ ''}'' @ rest) =
          bind_io (replace_all doubleBraces fn rest) (\<lambda>out. ret (body @ ''}'' @ out))" by simp
  with n show ?thesis by (simp add: bind_io_assoc)
qed

lemma second_pass_keeps_non_key:
  assumes "CHR ''{'' \<notin> set body" and "CHR ''}'' \<notin> set body" and "\<not> is_key body"
  shows "replace_all singleBraces fn (''{'' @ body @ ''}'' @ rest) =
           bind_io (replace_all singleBraces fn rest) (\<lambda>out. ret (''{'' @ body @ ''}'' @ out))"
proof -
  have n: "rx_exec singleBraces (CHR ''{'' # body @ ''}'' @ rest) = None"
  proof (cases "rx_exec singleBraces (CHR ''{'' # body @ ''}'' @ rest)")
    case None then show ?thesis .
  next
    case (Some m)
    obtain ph k where "m = (ph, k)" by (cases m)
    with Some have "rx_exec singleBraces (CHR ''{'' # body @ ''}'' @ rest) = Some (ph, k)" by simp
    then obtain r where k: "is_key k" and "body @ CHR ''}'' # rest = k @ CHR ''}'' # r"
      by (auto simp: rx_exec_iff open_close_simps)
    from same_body [OF this(2) assms(2)] is_key_no_brace [OF k] have "body = k" by simp
    with k assms(3) show ?thesis by simp
  qed
  have "CHR ''{'' \<notin> set (body @ ''}'')" using assms(1) by simp
  from replace_all_no_open [OF this, of singleBraces fn rest]
  have "replace_all singleBraces fn (body @ ''}'' @ rest) =
          bind_io (replace_all singleBraces fn rest) (\<lambda>out. ret (body @ ''}'' @ out))" by simp
  with n show ?thesis by (simp add: bind_io_assoc)
qed

lemma first_pass_append_non_key:
  assumes "CHR ''}'' \<notin> set body" and "\<not> is_key body"
  shows "snd (replace_all doubleBraces fn (pre @ ''{'' @ body @ ''}'' @ post)) =
           (case snd (replace_all doubleBraces fn pre) of
              Inl e \<Rightarrow> Inl e
            | Inr a \<Rightarrow>
                (case snd (replace_all doubleBraces fn (''{'' @ body @ ''}'' @ post)) of
                   Inl e \<Rightarrow> Inl e
                 | Inr b \<Rightarrow> Inr (a @ b)))"
proof (rule replace_all_append_outcome)
  fix q p ph k
  assume p: "p \<noteq> []" and x: "rx_exec doubleBraces (p @ ''{'' @ body @ ''}'' @ post) = Some (ph, k)"
  show "length ph \<le> length p"
  proof (rule ccontr)
    assume "\<not> length ph \<le> length p"
    then have lt: "length p < length ph" by simp
    from x have x': "rx_exec doubleBraces (p @ CHR ''{'' # body @ ''}'' @ post) = Some (ph, k)"
      by simp
    from double_overlap [OF x' p lt] obtain r' where
      "body @ ''}'' @ post = k @ ''}}'' @ r'" by blast
    then have e: "body @ CHR ''}'' # post = k @ CHR ''}'' # CHR ''}'' # r'" by simp
    from x have k: "is_key k" by (simp add: rx_exec_iff)
    from same_body [OF e assms(1)] is_key_no_brace [OF k] have "body = k" by simp
    with k assms(2) show False by simp
  qed
qed

lemma first_pass_split_escaped:
  "replace_all doubleBraces fn (pre @ ''{{'' @ r) =
           bind_io (replace_all doubleBraces fn pre) (\<lambda>a.
           bind_io (replace_all doubleBraces fn (''{{'' @ r)) (\<lambda>b. ret (a @ b)))"
proof (rule replace_all_append)
  fix q p ph k
  assume p: "p \<noteq> []" and x: "rx_exec doubleBraces (p @ ''{{'' @ r) = Some (ph, k)"
  show "length ph \<le> length p"
  proof (rule ccontr)
    assume "\<not> length ph \<le> length p"
    then have lt: "length p < length ph" by simp
    from x have x': "rx_exec doubleBraces (p @ CHR ''{'' # CHR ''{'' # r) = Some (ph, k)"
      by simp
    from double_overlap [OF x' p lt] obtain r' where
      "CHR ''{'' # r = k @ ''}}'' @ r'" by blast
    moreover from x have k: "is_key k" by (simp add: rx_exec_iff)
    ultimately have "CHR ''{'' \<in> set k" by (cases k) (auto simp: is_key_def)
    with is_key_no_brace [OF k] show False by simp
  qed
qed

lemma first_pass_append_escaped:
  "snd (replace_all doubleBraces fn (pre @ ''{{'' @ r)) =
           (case snd (replace_all doubleBraces fn pre) of
              Inl e \<Rightarrow> Inl e
            | Inr a \<Rightarrow>
                (case snd (replace_all doubleBraces fn (''{{'' @ r)) of
                   Inl e \<Rightarrow> Inl e
                 | Inr b \<Rightarrow> Inr (a @ b)))"
  unfolding first_pass_split_escaped
  by (simp add: snd_bind_io split: sum.splits del: replace_all.simps)

lemma first_pass_append_open:
  "snd (replace_all doubleBraces fn (pre @ ''{'')) =
           (case snd (replace_all doubleBraces fn pre) of
              Inl e \<Rightarrow> Inl e
            | Inr a \<Rightarrow> Inr (a @ ''{''))"
proof -
  have "snd (replace_all doubleBraces fn (pre @ ''{'')) =
           (case snd (replace_all doubleBraces fn pre) of
              Inl e \<Rightarrow> Inl e
            | Inr a \<Rightarrow>
                (case snd (replace_all doubleBraces fn ''{'') of
                   Inl e \<Rightarrow> Inl e
                 | Inr b \<Rightarrow> Inr (a @ b)))"
  proof (rule replace_all_append_outcome)
    fix q p ph k
    assume p: "p \<noteq> []" and x: "rx_exec doubleBraces (p @ ''{'') = Some (ph, k)"
    show "length ph \<le> length p"
    proof (rule ccontr)
      assume "\<not> length ph \<le> length p"
      then have lt: "length p < length ph" by simp
      from double_overlap [OF x p lt] show False by simp
    qed
  qed
  moreover have "rx_exec doubleBraces ''{'' = None"
    by (rule rx_exec_short) simp
  ultimately show ?thesis by (simp cong: sum.case_cong)
qed

lemma second_pass_append_open:
  "snd (replace_all singleBraces fn (pre @ ''{'')) =
           (case snd (replace_all singleBraces fn pre) of
              Inl e \<Rightarrow> Inl e
            | Inr a \<Rightarrow> Inr (a @ ''{''))"
proof -
  have "rx_exec singleBraces ''{'' = None"
    by (rule rx_exec_short) simp
  with second_pass_append [of fn pre "[]"] show ?thesis by (simp cong: sum.case_cong)
qed

lemma holma_append_open:
  assumes "schema data = VValue d"
  shows "snd (holma (Json (JStr (pre @ ''{''))) schema data options) =
           (case snd (holma (Json (JStr pre)) schema data options) of
              Inl e \<Rightarrow> Inl e
            | Inr out \<Rightarrow> Inr (out @ ''{''))"
  by (simp add: holma_outcome [of schema data d, OF assms] first_pass_append_open second_pass_append_open
        split: sum.splits)

lemma holma_prepend_close:
  assumes "schema data = VValue d"
  shows "snd (holma (Json (JStr (''}'' @ post))) schema data options) =
           (case snd (holma (Json (JStr post)) schema data options) of
              Inl e \<Rightarrow> Inl e
            | Inr out \<Rightarrow> Inr (''}'' @ out))"
proof -
  have "\<And>rx fn rest. replace_all rx fn (''}'' @ rest) =
            bind_io (replace_all rx fn rest) (\<lambda>out. ret (''}'' @ out))"
    by (rule replace_all_no_open) simp
  then have "\<And>rx fn rest. snd (replace_all rx fn (CHR ''}'' # rest)) =
            (case snd (replace_all rx fn rest) of Inl e \<Rightarrow> Inl e | Inr out \<Rightarrow> Inr (CHR ''}'' # out))"
    by (simp add: snd_bind_ret del: replace_all.simps cong: sum.case_cong)
  then show ?thesis
    by (simp add: holma_outcome [of schema data d, OF assms] split: sum.splits del: replace_all.simps)
qed

lemma non_key_in_context:
  assumes "schema data = VValue d"
    and "CHR ''{'' \<notin> set body" and "CHR ''}'' \<notin> set body" and "\<not> is_key body"
    and "snd (holma (Json (JStr pre)) schema data options) = Inr o1"
    and "snd (holma (Json (JStr post)) schema data options) = Inr o2"
  shows "snd (holma (Json (JStr (pre @ ''{'' @ body @ ''}'' @ post))) schema data options) =
           Inr (o1 @ ''{'' @ body @ ''}'' @ o2)"
proof -
  let ?fn1 = "withEscape (replace options d)"
  let ?fn2 = "replace options d"
  let ?X = "''{'' @ body @ ''}''"
  from assms(5) obtain a where a: "snd (replace_all doubleBraces ?fn1 pre) = Inr a"
    and o1: "snd (replace_all singleBraces ?fn2 a) = Inr o1"
    by (auto simp: holma_outcome [of schema data d, OF assms(1)] split: sum.splits)
  from assms(6) obtain b where b: "snd (replace_all doubleBraces ?fn1 post) = Inr b"
    and o2: "snd (replace_all singleBraces ?fn2 b) = Inr o2"
    by (auto simp: holma_outcome [of schema data d, OF assms(1)] split: sum.splits)
  have "snd (replace_all doubleBraces ?fn1 (?X @ post)) = Inr (?X @ b)"
    using first_pass_keeps_single [OF assms(2), of ?fn1 post] b
    by (simp add: snd_bind_ret del: replace_all.simps)
  with a have p1: "snd (replace_all doubleBraces ?fn1 (pre @ ?X @ post)) = Inr (a @ ?X @ b)"
    using first_pass_append_non_key [OF assms(3,4), of ?fn1 pre post]
    by (simp del: replace_all.simps)
  have "snd (replace_all singleBraces ?fn2 (?X @ b)) = Inr (?X @ o2)"
    using second_pass_keeps_non_key [OF assms(2,3,4), of ?fn2 b] o2
    by (simp add: snd_bind_ret del: replace_all.simps)
  with o1 have p2: "snd (replace_all singleBraces ?fn2 (a @ ?X @ b)) = Inr (o1 @ ?X @ o2)"
    using second_pass_append [of ?fn2 a "body @ ''}'' @ b"]
    by (simp del: replace_all.simps)
  from p1 p2 show ?thesis
    using holma_outcome [of schema data d "pre @ ?X @ post" options, OF assms(1)]
    by (simp del: replace_all.simps)
qed

lemma first_pass_split_raw:
  assumes "is_key k" and "\<not> (\<exists>pre' post'. pre = pre' @ ''{'' \<and> post = ''}'' @ post')"
  shows "replace_all doubleBraces fn (pre @ ''{'' @ k @ ''}'' @ post) =
           bind_io (replace_all doubleBraces fn pre) (\<lambda>a.
           bind_io (replace_all doubleBraces fn (''{'' @ k @ ''}'' @ post)) (\<lambda>b. ret (a @ b)))"
proof (rule replace_all_append)
  fix q p ph k'
  assume pre: "pre = q @ p" and p: "p \<noteq> []"
    and x: "rx_exec doubleBraces (p @ ''{'' @ k @ ''}'' @ post) = Some (ph, k')"
  show "length ph \<le> length p"
  proof (rule ccontr)
    assume "\<not> length ph \<le> length p"
    then have lt: "length p < length ph" by simp
    from x have x': "rx_exec doubleBraces (p @ CHR ''{'' # k @ ''}'' @ post) = Some (ph, k')"
      by simp
    from double_overlap [OF x' p lt] obtain r' where p1: "p = ''{''"
      and "k @ ''}'' @ post = k' @ ''}}'' @ r'" by blast
    then have e: "k @ CHR ''}'' # post = k' @ CHR ''}'' # CHR ''}'' # r'" by simp
    from x have k': "is_key k'" by (simp add: rx_exec_iff)
    from same_body [OF e] is_key_no_brace [OF assms(1)] is_key_no_brace [OF k']
    have "post = ''}'' @ r'" by simp
    with pre p1 assms(2) show False by blast
  qed
qed

lemma first_pass_append_raw:
  assumes "is_key k" and "\<not> (\<exists>pre' post'. pre = pre' @ ''{'' \<and> post = ''}'' @ post')"
  shows "snd (replace_all doubleBraces fn (pre @ ''{'' @ k @ ''}'' @ post)) =
           (case snd (replace_all doubleBraces fn pre) of
              Inl e \<Rightarrow> Inl e
            | Inr a \<Rightarrow>
                (case snd (replace_all doubleBraces fn (''{'' @ k @ ''}'' @ post)) of
                   Inl e \<Rightarrow> Inl e
                 | Inr b \<Rightarrow> Inr (a @ b)))"
  unfolding first_pass_split_raw [OF assms]
  by (simp add: snd_bind_io split: sum.splits del: replace_all.simps)

lemma escaped_missing_in_context:
  assumes "schema data = VValue d" and "ignoreMissing options"
    and "is_key k" and "missing options d k"
    and "snd (holma (Json (JStr pre)) schema data options) = Inr o1"
    and "snd (holma (Json (JStr post)) schema data options) = Inr o2"
  shows "snd (holma (Json (JStr (pre @ ''{{'' @ k @ ''}}'' @ post))) schema data options) =
           Inr (o1 @ ''{{'' @ k @ ''}}'' @ o2)"
proof -
  let ?fn1 = "withEscape (replace options d)"
  let ?fn2 = "replace options d"
  let ?X = "''{{'' @ k @ ''}}''"
  from assms(5) obtain a where a: "snd (replace_all doubleBraces ?fn1 pre) = Inr a"
    and o1: "snd (replace_all singleBraces ?fn2 a) = Inr o1"
    by (auto simp: holma_outcome [of schema data d, OF assms(1)] split: sum.splits)
  from assms(6) obtain b where b: "snd (replace_all doubleBraces ?fn1 post) = Inr b"
    and o2: "snd (replace_all singleBraces ?fn2 b) = Inr o2"
    by (auto simp: holma_outcome [of schema data d, OF assms(1)] split: sum.splits)
  have "snd (?fn1 ?X k) = Inr ?X"
    using escaped_replace_outcome [OF assms(3), of options d] assms(2,4) by simp
  then have "snd (replace_all doubleBraces ?fn1 (?X @ post)) = Inr (?X @ b)"
    using first_pass_escaped [OF assms(3), of ?fn1 post] b
    by (simp add: snd_bind_io del: replace_all.simps)
  with a have p1: "snd (replace_all doubleBraces ?fn1 (pre @ ?X @ post)) = Inr (a @ ?X @ b)"
    using first_pass_append_escaped [of ?fn1 pre "k @ ''}}'' @ post"]
    by (simp del: replace_all.simps)
  have "snd (?fn2 (''{'' @ k @ ''}'') k) = Inr (''{'' @ k @ ''}'')"
    using assms(2,4) by (simp add: replace_outcome missing_def)
  then have "snd (replace_all singleBraces ?fn2 (?X @ b)) = Inr (?X @ o2)"
    using second_pass_kept_escaped [OF assms(3), of ?fn2 b] o2
    by (simp add: snd_bind_io del: replace_all.simps)
  with o1 have p2: "snd (replace_all singleBraces ?fn2 (a @ ?X @ b)) = Inr (o1 @ ?X @ o2)"
    using second_pass_append [of ?fn2 a "CHR ''{'' # k @ ''}}'' @ b"]
    by (simp del: replace_all.simps)
  from p1 p2 show ?thesis
    using holma_outcome [of schema data d "pre @ ?X @ post" options, OF assms(1)]
    by (simp del: replace_all.simps)
qed

lemma raw_missing_in_context:
  assumes "schema data = VValue d" and "ignoreMissing options"
    and "is_key k" and "missing options d k"
    and "snd (holma (Json (JStr pre)) schema data options) = Inr o1"
    and "snd (holma (Json (JStr post)) schema data options) = Inr o2"
  shows "snd (holma (Json (JStr (pre @ ''{'' @ k @ ''}'' @ post))) schema data options) =
           Inr (o1 @ ''{'' @ k @ ''}'' @ o2)"
proof (cases "\<exists>pre' post'. pre = pre' @ ''{'' \<and> post = ''}'' @ post'")
  case True
  then obtain pre' post' where pre: "pre = pre' @ ''{''" and post: "post = ''}'' @ post'"
    by blast
  from assms(5) obtain o1' where o1': "snd (holma (Json (JStr pre')) schema data options) = Inr o1'"
    and o1: "o1 = o1' @ ''{''"
    unfolding pre holma_append_open [of schema data d, OF assms(1)]
    by (auto split: sum.splits)
  from assms(6) obtain o2' where o2': "snd (holma (Json (JStr post')) schema data options) = Inr o2'"
    and o2: "o2 = ''}'' @ o2'"
    unfolding post holma_prepend_close [of schema data d, OF assms(1)]
    by (auto split: sum.splits)
  from escaped_missing_in_context [OF assms(1-4) o1' o2']
  show ?thesis by (simp add: pre post o1 o2)
next
  case False
  let ?fn1 = "withEscape (replace options d)"
  let ?fn2 = "replace options d"
  let ?X = "''{'' @ k @ ''}''"
  from assms(5) obtain a where a: "snd (replace_all doubleBraces ?fn1 pre) = Inr a"
    and o1: "snd (replace_all singleBraces ?fn2 a) = Inr o1"
    by (auto simp: holma_outcome [of schema data d, OF assms(1)] split: sum.splits)
  from assms(6) obtain b where b: "snd (replace_all doubleBraces ?fn1 post) = Inr b"
    and o2: "snd (replace_all singleBraces ?fn2 b) = Inr o2"
    by (auto simp: holma_outcome [of schema data d, OF assms(1)] split: sum.splits)
  have nb: "CHR ''{'' \<notin> set k" using is_key_no_brace [OF assms(3)] by simp
  have "snd (replace_all doubleBraces ?fn1 (?X @ post)) = Inr (?X @ b)"
    using first_pass_keeps_single [OF nb, of ?fn1 post] b
    by (simp add: snd_bind_ret del: replace_all.simps)
  with a have p1: "snd (replace_all doubleBraces ?fn1 (pre @ ?X @ post)) = Inr (a @ ?X @ b)"
    using first_pass_append_raw [OF assms(3) False, of ?fn1]
    by (simp del: replace_all.simps)
  have "snd (?fn2 ?X k) = Inr ?X"
    using assms(2,4) by (simp add: replace_outcome missing_def)
  then have "snd (replace_all singleBraces ?fn2 (?X @ b)) = Inr (?X @ o2)"
    using second_pass_raw [OF assms(3), of ?fn2 b] o2
    by (simp add: snd_bind_io del: replace_all.simps)
  with o1 have p2: "snd (replace_all singleBraces ?fn2 (a @ ?X @ b)) = Inr (o1 @ ?X @ o2)"
    using second_pass_append [of ?fn2 a "k @ ''}'' @ b"]
    by (simp del: replace_all.simps)
  from p1 p2 show ?thesis
    using holma_outcome [of schema data d "pre @ ?X @ post" options, OF assms(1)]
    by (simp del: replace_all.simps)
qed

lemma escaped_missing_fails:
  assumes "schema data = VValue d" and "\<not> ignoreMissing options"
    and "is_key k" and "missing options d k"
  shows "\<exists>e. snd (holma (Json (JStr (pre @ ''{{'' @ k @ ''}}'' @ post))) schema data options) = Inl e"
proof -
  let ?fn1 = "withEscape (replace options d)"
  let ?X = "''{{'' @ k @ ''}}''"
  have "snd (?fn1 ?X k) = Inl (MissingValueError k)"
    using escaped_replace_outcome [OF assms(3), of options d] assms(2,4) by simp
  then have "snd (replace_all doubleBraces ?fn1 (?X @ post)) = Inl (MissingValueError k)"
    using first_pass_escaped [OF assms(3), of ?fn1 post]
    by (simp add: snd_bind_io del: replace_all.simps)
  then have "\<exists>e. snd (replace_all doubleBraces ?fn1 (pre @ ?X @ post)) = Inl e"
    using first_pass_append_escaped [of ?fn1 pre "k @ ''}}'' @ post"]
    by (simp del: replace_all.simps split: sum.splits)
  then show ?thesis
    using holma_outcome [of schema data d "pre @ ?X @ post" options, OF assms(1)]
    by (auto simp del: replace_all.simps)
qed

lemma raw_missing_fails:
  assumes "schema data = VValue d" and "\<not> ignoreMissing options"
    and "is_key k" and "missing options d k"
  shows "\<exists>e. snd (holma (Json (JStr (pre @ ''{'' @ k @ ''}'' @ post))) schema data options) = Inl e"
proof (cases "\<exists>pre' post'. pre = pre' @ ''{'' \<and> post = ''}'' @ post'")
  case True
  then obtain pre' post' where pre: "pre = pre' @ ''{''" and post: "post = ''}'' @ post'"
    by blast
  from escaped_missing_fails [where schema = schema and data = data and pre = pre'
      and post = post', OF assms]
  show ?thesis by (simp add: pre post)
next
  case False
  let ?fn1 = "withEscape (replace options d)"
  let ?fn2 = "replace options d"
  let ?X = "''{'' @ k @ ''}''"
  let ?t = "pre @ ?X @ post"
  show ?thesis
  proof (cases "snd (replace_all doubleBraces ?fn1 ?t)")
    case (Inl e)
    then show ?thesis
      using holma_outcome [of schema data d ?t options, OF assms(1)]
      by (simp del: replace_all.simps)
  next
    case (Inr res)
    have nb: "CHR ''{'' \<notin> set k" using is_key_no_brace [OF assms(3)] by simp
    from Inr obtain a b where "res = a @ ?X @ b"
      using first_pass_append_raw [OF assms(3) False, of ?fn1]
        first_pass_keeps_single [OF nb, of ?fn1 post]
      by (auto simp: snd_bind_ret split: sum.splits simp del: replace_all.simps)
    moreover have "snd (?fn2 ?X k) = Inl (MissingValueError k)"
      using assms(2,4) by (simp add: replace_outcome missing_def)
    then have "snd (replace_all singleBraces ?fn2 (?X @ b)) = Inl (MissingValueError k)"
      using second_pass_raw [OF assms(3), of ?fn2 b]
      by (simp add: snd_bind_io del: replace_all.simps)
    then have "\<exists>e. snd (replace_all singleBraces ?fn2 (a @ ?X @ b)) = Inl e"
      using second_pass_append [of ?fn2 a "k @ ''}'' @ b"]
      by (simp del: replace_all.simps split: sum.splits)
    ultimately show ?thesis
      using holma_outcome [of schema data d ?t options, OF assms(1)] Inr
      by (auto simp del: replace_all.simps)
  qed
qed







subsection \<open>Failures and what has happened before them\<close>

lemma replace_failure:
  assumes "snd (replace options d ph k) = Inl e"
  shows "(e = MissingValueError k \<and> missing options d k \<and> \<not> ignoreMissing options)
         \<or> (e = cannot_convert \<and> to_string (lookup_transformed options d k) = Inl cannot_convert)"
  using assms
  by (auto simp: replace_outcome missing_def split: if_splits dest: to_string_error)

lemma pass_failure:
  assumes "snd (replace_all rx (replace options d) t) = Inl e
           \<or> snd (replace_all rx (withEscape (replace options d)) t) = Inl e"
  shows "\<exists>k. is_key k \<and>
           ((e = MissingValueError k \<and> missing options d k \<and> \<not> ignoreMissing options)
            \<or> (e = cannot_convert
                \<and> to_string (lookup_transformed options d k) = Inl cannot_convert))"
  using assms
proof
  assume "snd (replace_all rx (replace options d) t) = Inl e"
  from replace_all_error [OF this] obtain ph k where "is_key k"
    and "snd (replace options d ph k) = Inl e" by blast
  with replace_failure show ?thesis by blast
next
  assume "snd (replace_all rx (withEscape (replace options d)) t) = Inl e"
  from replace_all_error [OF this] obtain ph k where k: "is_key k"
    and "snd (withEscape (replace options d) ph k) = Inl e" by blast
  then have "snd (replace options d ph k) = Inl e"
    by (simp add: withEscape_outcome split: sum.splits)
  with replace_failure k show ?thesis by blast
qed

lemma holma_failure:
  assumes "schema data = VValue d"
    and "snd (holma (Json (JStr t)) schema data options) = Inl e"
  shows "\<exists>k. is_key k \<and>
           ((e = MissingValueError k \<and> missing options d k \<and> \<not> ignoreMissing options)
            \<or> (e = cannot_convert
                \<and> to_string (lookup_transformed options d k) = Inl cannot_convert))"
proof (cases "snd (replace_all doubleBraces (withEscape (replace options d)) t)")
  case (Inl e')
  with assms have "e' = e" by (simp add: holma_outcome [of schema data d])
  with Inl pass_failure [of doubleBraces options d t e] show ?thesis by simp
next
  case (Inr res)
  with assms have "snd (replace_all singleBraces (replace options d) res) = Inl e"
    by (simp add: holma_outcome [of schema data d])
  with pass_failure [of singleBraces options d res e] show ?thesis by simp
qed

lemma holma_run:
  assumes "schema data = VValue d"
  shows "holma (Json (JStr t)) schema data options =
           (EvValidate data #
              fst (bind_io (first_pass options d t) (second_pass options d)),
            snd (bind_io (first_pass options d t) (second_pass options d)))"
proof -
  have "second_pass options d = (\<lambda>result. replace_all singleBraces (replace options d) result)"
    by (rule ext) (simp add: second_pass_def)
  then show ?thesis
    using assms
    by (cases "bind_io (first_pass options d t) (second_pass options d)")
       (simp add: holma_guard holma_first_pass_always_def validateSchema_def str_of_def
          first_pass_def bind_io_def del: replace_all.simps)
qed

lemma escaped_missing_aborts:
  assumes "schema data = VValue d" and "\<not> ignoreMissing options"
    and "is_key k" and "missing options d k"
    and "snd (first_pass options d pre) = Inr a"
  shows "holma (Json (JStr (pre @ ''{{'' @ k @ ''}}'' @ post))) schema data options =
           (EvValidate data # fst (first_pass options d pre) @ key_events options d k,
            Inl (MissingValueError k))"
proof -
  let ?fn1 = "withEscape (replace options d)"
  let ?X = "''{{'' @ k @ ''}}''"
  obtain eva where pa: "replace_all doubleBraces ?fn1 pre = (eva, Inr a)"
    using assms(5) by (cases "replace_all doubleBraces ?fn1 pre") (simp add: first_pass_def)
  then have eva: "fst (first_pass options d pre) = eva" by (simp add: first_pass_def)
  have "snd (?fn1 ?X k) = Inl (MissingValueError k)"
    using escaped_replace_outcome [OF assms(3), of options d] assms(2,4) by simp
  moreover have "fst (?fn1 ?X k) = key_events options d k"
    by (simp add: withEscape_events replace_events)
  ultimately have x: "?fn1 ?X k = (key_events options d k, Inl (MissingValueError k))"
    by (simp add: prod_eq_iff)
  have "replace_all doubleBraces ?fn1 (?X @ post) =
          (key_events options d k, Inl (MissingValueError k))"
    using first_pass_escaped [OF assms(3), of ?fn1 post] x
    by (simp add: bind_io_def del: replace_all.simps)
  with pa have "first_pass options d (pre @ ?X @ post) =
          (eva @ key_events options d k, Inl (MissingValueError k))"
    using first_pass_split_escaped [of ?fn1 pre "k @ ''}}'' @ post"]
    by (simp add: first_pass_def bind_io_def del: replace_all.simps)
  then show ?thesis
    unfolding holma_run [of schema data d, OF assms(1)] eva by (simp add: bind_io_def)
qed

lemma raw_missing_aborts:
  assumes "schema data = VValue d" and "\<not> ignoreMissing options"
    and "is_key k" and "missing options d k"
    and "\<not> (\<exists>pre' post'. pre = pre' @ ''{'' \<and> post = ''}'' @ post')"
    and "snd (first_pass options d pre) = Inr a"
    and "snd (first_pass options d post) = Inr b"
    and "snd (second_pass options d a) = Inr o1"
  shows "holma (Json (JStr (pre @ ''{'' @ k @ ''}'' @ post))) schema data options =
           (EvValidate data # fst (first_pass options d pre) @ fst (first_pass options d post)
              @ fst (second_pass options d a) @ key_events options d k,
            Inl (MissingValueError k))"
proof -
  let ?fn1 = "withEscape (replace options d)"
  let ?fn2 = "replace options d"
  let ?X = "''{'' @ k @ ''}''"
  have nb: "CHR ''{'' \<notin> set k" using is_key_no_brace [OF assms(3)] by simp
  obtain eva where pa: "replace_all doubleBraces ?fn1 pre = (eva, Inr a)"
    using assms(6) by (cases "replace_all doubleBraces ?fn1 pre") (simp add: first_pass_def)
  then have eva: "fst (first_pass options d pre) = eva" by (simp add: first_pass_def)
  obtain evb where pb: "replace_all doubleBraces ?fn1 post = (evb, Inr b)"
    using assms(7) by (cases "replace_all doubleBraces ?fn1 post") (simp add: first_pass_def)
  then have evb: "fst (first_pass options d post) = evb" by (simp add: first_pass_def)
  obtain evo where po: "replace_all singleBraces ?fn2 a = (evo, Inr o1)"
    using assms(8) by (cases "replace_all singleBraces ?fn2 a") (simp add: second_pass_def)
  then have evo: "fst (second_pass options d a) = evo" by (simp add: second_pass_def)
  have "replace_all doubleBraces ?fn1 (?X @ post) = (evb, Inr (?X @ b))"
    using first_pass_keeps_single [OF nb, of ?fn1 post] pb
    by (simp add: bind_io_def ret_def del: replace_all.simps)
  with pa have p1: "first_pass options d (pre @ ?X @ post) = (eva @ evb, Inr (a @ ?X @ b))"
    using first_pass_split_raw [OF assms(3,5), of ?fn1]
    by (simp add: first_pass_def bind_io_def ret_def del: replace_all.simps)
  have "snd (?fn2 ?X k) = Inl (MissingValueError k)"
    using assms(2,4) by (simp add: replace_outcome missing_def)
  moreover have "fst (?fn2 ?X k) = key_events options d k" by (simp add: replace_events)
  ultimately have x: "?fn2 ?X k = (key_events options d k, Inl (MissingValueError k))"
    by (simp add: prod_eq_iff)
  have "replace_all singleBraces ?fn2 (?X @ b) =
          (key_events options d k, Inl (MissingValueError k))"
    using second_pass_raw [OF assms(3), of ?fn2 b] x
    by (simp add: bind_io_def del: replace_all.simps)
  with po have p2: "second_pass options d (a @ ?X @ b) =
      (evo @ key_events options d k, Inl (MissingValueError k))"
    using second_pass_split [of ?fn2 a "k @ ''}'' @ b"]
    by (simp add: second_pass_def bind_io_def del: replace_all.simps)
  from p1 p2 show ?thesis
    unfolding holma_run [of schema data d, OF assms(1)] eva evb evo by (simp add: bind_io_def)
qed

lemma holma_ignoring_never_missing:
  assumes "schema data = VValue d" and "ignoreMissing options"
  shows "snd (holma (Json (JStr t)) schema data options) \<noteq> Inl (MissingValueError k)"
proof
  assume "snd (holma (Json (JStr t)) schema data options) = Inl (MissingValueError k)"
  from holma_failure [of schema data d, OF assms(1) this] assms(2) show False
    by (auto simp: cannot_convert_def)
qed

lemma holma_string_template_error:
  assumes "typeof template = ''string''"
  shows "snd (holma template schema data options)
           \<noteq> Inl (TypeError (''Expected a `string` for template, got `'' @ ty @ ''`''))"
proof (cases "schema data")
  case (VIssues issues)
  with assms show ?thesis by (simp add: holma_def validateSchema_def snd_bind_io)
next
  case (VValue d)
  from assms obtain t where t: "template = Json (JStr t)"
    by (cases template rule: typeof.cases) simp_all
  show ?thesis
  proof
    assume "snd (holma template schema data options)
           = Inl (TypeError (''Expected a `string` for template, got `'' @ ty @ ''`''))"
    from holma_failure [of schema data d, OF VValue this [unfolded t]] show False
      by (auto simp: cannot_convert_def)
  qed
qed

section \<open>Properties\<close>

text \<open>
  C1. Inserted values are not scanned again. This holds of the values inserted for
  single-brace placeholders and fails for the values inserted for double-brace
  placeholders: the second pass runs over the text the first pass has produced. With
  \<open>t = "{x}"\<close> and \<open>x = "boom"\<close> the template \<open>{{t}}\<close> renders as \<open>boom\<close>, while \<open>{t}\<close>
  renders as \<open>{x}\<close>.
\<close>
theorem escaped_value_is_scanned_again:
  "snd (holma (Json (JStr ''{{t}}'')) accept
          (Json (JObj [(''t'', JStr ''{x}''), (''x'', JStr ''boom'')])) plain)
     = Inr ''boom''
   \<and> snd (holma (Json (JStr ''{t}'')) accept
          (Json (JObj [(''t'', JStr ''{x}''), (''x'', JStr ''boom'')])) plain)
     = Inr ''{x}''"
  by code_simp

text \<open>
  C2. The result for a double-brace placeholder is not always the HTML-escaped
  stringified value. With \<open>a = "<i>"\<close> and \<open>b = "{a}"\<close> both keys have values; the
  stringified value of \<open>a\<close> is \<open><i>\<close> and the escaped stringified value of \<open>b\<close> is \<open>{a}\<close>,
  so the template \<open>{a} {{b}}\<close> should render as \<open><i> {a}\<close>. It renders as \<open><i> <i>\<close>: the
  text inserted for \<open>{{b}}\<close> is substituted once more by the second pass, and what
  stands in its place is not escaped. The order of the two placeholders does not
  matter. The escape itself maps the five characters to their entities.
\<close>
theorem escaped_result_is_substituted_unescaped:
  "snd (holma (Json (JStr ''{a} {{b}}'')) accept
          (Json (JObj [(''a'', JStr ''<i>''), (''b'', JStr ''{a}'')])) plain)
     = Inr ''<i> <i>''
   \<and> snd (holma (Json (JStr ''{{b}} {a}'')) accept
          (Json (JObj [(''a'', JStr ''<i>''), (''b'', JStr ''{a}'')])) plain)
     = Inr ''<i> <i>''
   \<and> \<not> missing plain (Json (JObj [(''a'', JStr ''<i>''), (''b'', JStr ''{a}'')])) ''a''
   \<and> \<not> missing plain (Json (JObj [(''a'', JStr ''<i>''), (''b'', JStr ''{a}'')])) ''b''
   \<and> to_string (lookup_transformed plain
          (Json (JObj [(''a'', JStr ''<i>''), (''b'', JStr ''{a}'')])) ''a'') = Inr ''<i>''
   \<and> map_sum id htmlEscape (to_string (lookup_transformed plain
          (Json (JObj [(''a'', JStr ''<i>''), (''b'', JStr ''{a}'')])) ''b'')) = Inr ''{a}''
   \<and> htmlEscape [CHR ''&'', CHR ''<'', CHR ''>'', CHR 0x22, CHR 0x27]
        = ''&amp;&lt;&gt;&quot;&#39;''"
  by code_simp

text \<open>
  C3, as the specification words it, fails: a placeholder with a missing value does not
  always make the call fail with a \<open>MissingValueError\<close>. In \<open>{o} {name}\<close> the key \<open>name\<close>
  is missing, but the value of \<open>o\<close> is an object with an own property \<open>toString\<close>, which
  \<open>String()\<close> cannot convert: the call fails with the \<open>TypeError\<close> of the conversion
  before the scan reaches \<open>{name}\<close>.
\<close>

theorem missing_value_behind_unconvertible_value:
  "is_key ''name''
   \<and> missing plain (Json (JObj [(''o'', JObj [(''toString'', JStr ''x'')])])) ''name''
   \<and> holma (Json (JStr ''{o} {name}'')) accept
        (Json (JObj [(''o'', JObj [(''toString'', JStr ''x'')])])) plain
      = ([EvValidate (Json (JObj [(''o'', JObj [(''toString'', JStr ''x'')])]))],
         Inl (TypeError ''Cannot convert object to primitive value''))"
  by code_simp

text \<open>
  C3. With \<open>ignoreMissing\<close> false, a placeholder with a missing value anywhere in any
  template makes the call fail, so that there is no output: with a
  \<open>MissingValueError\<close> for a missing key or with the \<open>TypeError\<close> of a value that
  \<open>String()\<close> cannot convert (first part; a double-brace placeholder is a single-brace
  one between two braces). The error is the \<open>MissingValueError\<close> with the key of the
  placeholder when the scan gets as far as the placeholder, that is when everything
  scanned before it has been substituted without an error. For a double-brace
  placeholder this is the first pass over the text before it; then the events of the
  call are the call of the validator, those of the first pass over the text before the
  placeholder and those of the replacer for its key, and nothing is resolved after it
  (second part). For a single-brace placeholder it is the first pass over the text
  before it and over the text after it, and the second pass over what the first pass
  has made of the text before it; the events are those of these three scans in this
  order and those of the replacer for its key (third part).
\<close>
theorem missing_value_aborts_the_scan:
  assumes "schema data = VValue d" and "\<not> ignoreMissing options"
    and "is_key k" and "missing options d k"
  shows
    "(\<exists>e. snd (holma (Json (JStr (pre @ ''{'' @ k @ ''}'' @ post))) schema data options) = Inl e
          \<and> ((\<exists>k'. e = MissingValueError k' \<and> missing options d k')
             \<or> e = TypeError ''Cannot convert object to primitive value''))
     \<and> (snd (first_pass options d pre) = Inr a \<longrightarrow>
          holma (Json (JStr (pre @ ''{{'' @ k @ ''}}'' @ post))) schema data options =
            (EvValidate data # fst (first_pass options d pre) @ key_events options d k,
             Inl (MissingValueError k)))
     \<and> (\<not> (\<exists>pre' post'. pre = pre' @ ''{'' \<and> post = ''}'' @ post') \<and>
        snd (first_pass options d pre) = Inr a \<and>
        snd (first_pass options d post) = Inr b \<and>
        snd (second_pass options d a) = Inr o1 \<longrightarrow>
          holma (Json (JStr (pre @ ''{'' @ k @ ''}'' @ post))) schema data options =
            (EvValidate data # fst (first_pass options d pre) @ fst (first_pass options d post)
               @ fst (second_pass options d a) @ key_events options d k,
             Inl (MissingValueError k)))"
proof (intro conjI impI)
  let ?t = "pre @ ''{'' @ k @ ''}'' @ post"
  obtain e where e: "snd (holma (Json (JStr ?t)) schema data options) = Inl e"
    using raw_missing_fails [where schema = schema and data = data and pre = pre and post = post,
        OF assms] by blast
  from holma_failure [of schema data d ?t options e, OF assms(1) e]
  have "(\<exists>k'. e = MissingValueError k' \<and> missing options d k')
          \<or> e = TypeError ''Cannot convert object to primitive value''"
    by (auto simp: cannot_convert_def)
  with e show "\<exists>e. snd (holma (Json (JStr ?t)) schema data options) = Inl e
          \<and> ((\<exists>k'. e = MissingValueError k' \<and> missing options d k')
             \<or> e = TypeError ''Cannot convert object to primitive value'')"
    by blast
next
  assume "snd (first_pass options d pre) = Inr a"
  then show "holma (Json (JStr (pre @ ''{{'' @ k @ ''}}'' @ post))) schema data options =
            (EvValidate data # fst (first_pass options d pre) @ key_events options d k,
             Inl (MissingValueError k))"
    by (rule escaped_missing_aborts [of schema data d, OF assms])
next
  assume "\<not> (\<exists>pre' post'. pre = pre' @ ''{'' \<and> post = ''}'' @ post') \<and>
        snd (first_pass options d pre) = Inr a \<and>
        snd (first_pass options d post) = Inr b \<and>
        snd (second_pass options d a) = Inr o1"
  then show "holma (Json (JStr (pre @ ''{'' @ k @ ''}'' @ post))) schema data options =
            (EvValidate data # fst (first_pass options d pre) @ fst (first_pass options d post)
               @ fst (second_pass options d a) @ key_events options d k,
             Inl (MissingValueError k))"
    using raw_missing_aborts [of schema data d options k pre post a b o1, OF assms] by blast
qed

theorem missing_value_aborts_the_scan_witness:
  "holma (Json (JStr ''f() { return {name}; }'')) accept (Json (JObj [])) plain
     = ([EvValidate (Json (JObj []))], Inl (MissingValueError ''name''))
   \<and> holma (Json (JStr ''{{e}} {{a}} {{c}} {b}'')) accept letter tracing
     = ([EvValidate letter, EvTransform (Json (JStr ''y'')) ''e'', EvTransform JUndefined ''a''],
        Inl (MissingValueError ''a''))
   \<and> holma (Json (JStr ''{{e}} {a} {{c}} {b}'')) accept letter tracing
     = ([EvValidate letter, EvTransform (Json (JStr ''y'')) ''e'',
         EvTransform (Json (JStr ''x'')) ''c'', EvTransform JUndefined ''a''],
        Inl (MissingValueError ''a''))"
proof -
  have a1: "accept (Json (JObj [])) = VValue (Json (JObj []))"
    and a2: "accept letter = VValue letter"
    by (simp_all add: accept_def)
  have p1: "\<not> ignoreMissing plain" by (simp add: plain_def)
  have p2: "\<not> ignoreMissing tracing" by (simp add: tracing_def)
  have k1: "is_key ''name''" "missing plain (Json (JObj [])) ''name''" by code_simp+
  have k2: "is_key ''a''" "missing tracing letter ''a''" by code_simp+
  have n1: "\<not> (\<exists>pre' post'. ''f() { return '' = pre' @ ''{'' \<and> ''; }'' = ''}'' @ post')"
    by simp
  have n2: "\<not> (\<exists>pre' post'. ''{{e}} '' = pre' @ ''{'' \<and> '' {{c}} {b}'' = ''}'' @ post')"
    by simp
  have s1: "snd (first_pass plain (Json (JObj [])) ''f() { return '') = Inr ''f() { return ''"
    "snd (first_pass plain (Json (JObj [])) ''; }'') = Inr ''; }''"
    "snd (second_pass plain (Json (JObj [])) ''f() { return '') = Inr ''f() { return ''"
    by code_simp+
  have e1: "EvValidate (Json (JObj [])) # fst (first_pass plain (Json (JObj [])) ''f() { return '')
              @ fst (first_pass plain (Json (JObj [])) ''; }'')
              @ fst (second_pass plain (Json (JObj [])) ''f() { return '')
              @ key_events plain (Json (JObj [])) ''name''
            = [EvValidate (Json (JObj []))]"
    by code_simp
  have s2: "snd (first_pass tracing letter ''{{e}} '') = Inr ''y ''"
    "snd (first_pass tracing letter '' {{c}} {b}'') = Inr '' x {b}''"
    "snd (second_pass tracing letter ''y '') = Inr ''y ''"
    by code_simp+
  have e2: "EvValidate letter # fst (first_pass tracing letter ''{{e}} '')
              @ key_events tracing letter ''a''
            = [EvValidate letter, EvTransform (Json (JStr ''y'')) ''e'',
               EvTransform JUndefined ''a'']"
    by code_simp
  have e3: "EvValidate letter # fst (first_pass tracing letter ''{{e}} '')
              @ fst (first_pass tracing letter '' {{c}} {b}'')
              @ fst (second_pass tracing letter ''y '')
              @ key_events tracing letter ''a''
            = [EvValidate letter, EvTransform (Json (JStr ''y'')) ''e'',
               EvTransform (Json (JStr ''x'')) ''c'', EvTransform JUndefined ''a'']"
    by code_simp
  from missing_value_aborts_the_scan
         [of accept "Json (JObj [])" "Json (JObj [])" plain "''name''" "''f() { return ''"
             "''; }''" "''f() { return ''" "''; }''" "''f() { return ''", OF a1 p1 k1]
       n1 s1
  have c1: "holma (Json (JStr ''f() { return {name}; }'')) accept (Json (JObj [])) plain
     = (EvValidate (Json (JObj [])) # fst (first_pass plain (Json (JObj [])) ''f() { return '')
              @ fst (first_pass plain (Json (JObj [])) ''; }'')
              @ fst (second_pass plain (Json (JObj [])) ''f() { return '')
              @ key_events plain (Json (JObj [])) ''name'',
        Inl (MissingValueError ''name''))"
    by simp
  from missing_value_aborts_the_scan
         [of accept letter letter tracing "''a''" "''{{e}} ''" "'' {{c}} {b}''" "''y ''"
             "'' x {b}''" "''y ''", OF a2 p2 k2]
       n2 s2
  have c2: "holma (Json (JStr ''{{e}} {{a}} {{c}} {b}'')) accept letter tracing
     = (EvValidate letter # fst (first_pass tracing letter ''{{e}} '')
              @ key_events tracing letter ''a'',
        Inl (MissingValueError ''a''))"
    and c3: "holma (Json (JStr ''{{e}} {a} {{c}} {b}'')) accept letter tracing
     = (EvValidate letter # fst (first_pass tracing letter ''{{e}} '')
              @ fst (first_pass tracing letter '' {{c}} {b}'')
              @ fst (second_pass tracing letter ''y '')
              @ key_events tracing letter ''a'',
        Inl (MissingValueError ''a''))"
    by simp_all
  from c1 c2 c3 show ?thesis unfolding e1 e2 e3 by blast
qed

text \<open>
  C4, as the specification words it, fails: with \<open>ignoreMissing\<close> true the call does not
  always succeed. In \<open>{o} {name}\<close> the key \<open>name\<close> is missing, and the call fails with
  the \<open>TypeError\<close> of \<open>String()\<close> on the value of \<open>o\<close>, an object with an own property
  \<open>toString\<close>.
\<close>

theorem ignore_missing_does_not_make_the_call_succeed:
  "ignoreMissing lenient
   \<and> missing lenient (Json (JObj [(''o'', JObj [(''toString'', JStr ''x'')])])) ''name''
   \<and> snd (holma (Json (JStr ''{o} {name}'')) accept
        (Json (JObj [(''o'', JObj [(''toString'', JStr ''x'')])])) lenient)
      = Inl (TypeError ''Cannot convert object to primitive value'')"
  by code_simp

text \<open>
  C4. With \<open>ignoreMissing\<close> true, a placeholder of either kind whose value is missing
  stays in the output as it is, whatever stands before and after it: when the text
  before and the text after render, the whole template renders to their renderings with
  the placeholder unchanged in between (first part). No call fails with a
  \<open>MissingValueError\<close> (second part): a call that fails does so with the \<open>TypeError\<close> of
  \<open>String()\<close> on the value of some key (third part).
\<close>
theorem ignore_missing_keeps_placeholder:
  assumes "schema data = VValue d" and "ignoreMissing options"
    and "is_key k" and "missing options d k"
  shows
    "(snd (holma (Json (JStr pre)) schema data options) = Inr o1 \<and>
      snd (holma (Json (JStr post)) schema data options) = Inr o2 \<longrightarrow>
        snd (holma (Json (JStr (pre @ ''{'' @ k @ ''}'' @ post))) schema data options) =
          Inr (o1 @ ''{'' @ k @ ''}'' @ o2)
        \<and> snd (holma (Json (JStr (pre @ ''{{'' @ k @ ''}}'' @ post))) schema data options) =
            Inr (o1 @ ''{{'' @ k @ ''}}'' @ o2))
     \<and> (\<forall>k'. snd (holma (Json (JStr t)) schema data options) \<noteq> Inl (MissingValueError k'))
     \<and> (snd (holma (Json (JStr t)) schema data options) = Inl e \<longrightarrow>
          e = TypeError ''Cannot convert object to primitive value''
          \<and> (\<exists>k'. is_key k' \<and> to_string (lookup_transformed options d k') = Inl e))"
proof (intro conjI impI allI)
  assume h: "snd (holma (Json (JStr pre)) schema data options) = Inr o1 \<and>
      snd (holma (Json (JStr post)) schema data options) = Inr o2"
  then have o1: "snd (holma (Json (JStr pre)) schema data options) = Inr o1"
    and o2: "snd (holma (Json (JStr post)) schema data options) = Inr o2" by simp_all
  show "snd (holma (Json (JStr (pre @ ''{'' @ k @ ''}'' @ post))) schema data options) =
          Inr (o1 @ ''{'' @ k @ ''}'' @ o2)"
    using raw_missing_in_context [of schema data d options k pre o1 post o2, OF assms o1 o2] .
  show "snd (holma (Json (JStr (pre @ ''{{'' @ k @ ''}}'' @ post))) schema data options) =
            Inr (o1 @ ''{{'' @ k @ ''}}'' @ o2)"
    using escaped_missing_in_context [of schema data d options k pre o1 post o2, OF assms o1 o2] .
next
  fix k'
  show "snd (holma (Json (JStr t)) schema data options) \<noteq> Inl (MissingValueError k')"
    by (rule holma_ignoring_never_missing [of schema data d, OF assms(1,2)])
next
  assume e: "snd (holma (Json (JStr t)) schema data options) = Inl e"
  from holma_failure [of schema data d t options e, OF assms(1) e] assms(2)
  show "e = TypeError ''Cannot convert object to primitive value''"
    and "\<exists>k'. is_key k' \<and> to_string (lookup_transformed options d k') = Inl e"
    by (auto simp: cannot_convert_def)
qed

theorem ignore_missing_keeps_placeholder_witness:
  "snd (holma (Json (JStr ''Hello {name}!'')) accept
          (Json (JObj [(''o'', JObj [(''toString'', JStr ''x'')])])) lenient)
     = Inr ''Hello {name}!''
   \<and> snd (holma (Json (JStr ''Hello {{name}}!'')) accept
          (Json (JObj [(''o'', JObj [(''toString'', JStr ''x'')])])) lenient)
     = Inr ''Hello {{name}}!''
   \<and> (\<forall>k'. snd (holma (Json (JStr ''{o} {name}'')) accept
          (Json (JObj [(''o'', JObj [(''toString'', JStr ''x'')])])) lenient)
        \<noteq> Inl (MissingValueError k'))
   \<and> (\<exists>k'. is_key k' \<and>
        to_string (lookup_transformed lenient
          (Json (JObj [(''o'', JObj [(''toString'', JStr ''x'')])])) k')
        = Inl (TypeError ''Cannot convert object to primitive value''))"
proof -
  let ?d = "Json (JObj [(''o'', JObj [(''toString'', JStr ''x'')])])"
  have a: "accept ?d = VValue ?d" by (simp add: accept_def)
  have i: "ignoreMissing lenient" by (simp add: lenient_def)
  have k: "is_key ''name''" by code_simp
  have m: "missing lenient ?d ''name''" by code_simp
  have o: "snd (holma (Json (JStr ''Hello '')) accept ?d lenient) = Inr ''Hello '' \<and>
      snd (holma (Json (JStr ''!'')) accept ?d lenient) = Inr ''!''"
    by code_simp
  have f: "snd (holma (Json (JStr ''{o} {name}'')) accept ?d lenient)
             = Inl (TypeError ''Cannot convert object to primitive value'')"
    by code_simp
  from ignore_missing_keeps_placeholder
         [of accept ?d ?d lenient "''name''" "''Hello ''" "''Hello ''" "''!''" "''!''"
             "''{o} {name}''" "TypeError ''Cannot convert object to primitive value''",
          OF a i k m] o f
  show ?thesis by simp
qed

text \<open>
  C5. When the validator answers with issues, the call fails with a \<open>SchemaError\<close>
  holding exactly these issues, whatever the template and the options are. The only
  event is the call of the validator: the transform hook is never called, no placeholder
  is resolved and no rendered text comes out.
\<close>
theorem schema_issues_abort_before_substitution:
  assumes "typeof template = ''string''" and "schema data = VIssues issues"
  shows "holma template schema data options = ([EvValidate data], Inl (SchemaError issues))"
  using assms by (simp add: holma_def validateSchema_def bind_io_def)


theorem schema_issues_abort_before_substitution_witness:
  "holma (Json (JStr ''Hello {name}!'')) reject_name (Json (JObj [(''name'', JNum ''123'')]))
     \<lparr>ignoreMissing = False, transform = Some (\<lambda>v k. Json (JStr ''x''))\<rparr>
   = ([EvValidate (Json (JObj [(''name'', JNum ''123'')]))],
      Inl (SchemaError [(''Expected string, received number'', [''name''])]))"
  using schema_issues_abort_before_substitution
          [of "Json (JStr ''Hello {name}!'')" reject_name "Json (JObj [(''name'', JNum ''123'')])"
              "[(''Expected string, received number'', [''name''])]"
              "\<lparr>ignoreMissing = False, transform = Some (\<lambda>v k. Json (JStr ''x''))\<rparr>"]
  by (simp add: reject_name_def)

text \<open>
  C6, as the specification words it, fails: a branch that is missing in the data does
  not always yield the absent marker. The empty object has no field \<open>constructor\<close>, and
  the walk of the specification gives the absent marker for it; \<open>getNestedValue\<close> finds
  the member that every object inherits from its prototype, so that \<open>{constructor}\<close>
  renders as the text of a function although no value was given for it, with
  \<open>ignoreMissing\<close> false.
\<close>

theorem inherited_member_is_not_absent:
  "spec_lookup (Json (JObj [])) (segments ''constructor'') = JUndefined
   \<and> getNestedValue (Json (JObj [])) ''constructor'' = Inr (JFun ''Object'')
   \<and> snd (holma (Json (JStr ''{constructor}'')) accept (Json (JObj [])) plain)
       = Inr ''function Object() { [native code] }''"
  by code_simp

text \<open>
  C6. \<open>getNestedValue\<close> never throws, for any data and any path: it returns the value
  of the walk over the segments of the path that gives \<open>undefined\<close> as soon as the
  current value is \<open>null\<close> or \<open>undefined\<close> or cannot be traversed, and otherwise goes on
  with the member of that name: the field or the index when there is one, else the
  \<open>length\<close> of an array or the member inherited from the prototype, else \<open>undefined\<close>
  (first part). When no segment of the path is the name of such a built-in member,
  this is the walk of the specification, where a missing field or index gives the
  absent marker (second part).
\<close>
theorem getNestedValue_never_throws:
  "getNestedValue obj path = Inr (nested_lookup obj (segments path))
   \<and> (list_all (\<lambda>name. \<not> builtin_name name) (segments path) \<longrightarrow>
        getNestedValue obj path = Inr (spec_lookup obj (segments path)))"
  by (simp add: getNestedValue_def getNestedValue_loop_walk segments_split_dot
        nested_lookup_spec)

theorem getNestedValue_never_throws_witness:
  "getNestedValue (Json (JObj [(''user'', JObj [(''tags'', JArr [JStr ''a'', JStr ''b''])])]))
     ''user.tags.1'' = Inr (Json (JStr ''b''))
   \<and> getNestedValue (Json (JObj [(''user'', JObj [(''tags'', JArr [JStr ''a'', JStr ''b''])])]))
     ''user.profile.name'' = Inr JUndefined"
proof -
  let ?d = "Json (JObj [(''user'', JObj [(''tags'', JArr [JStr ''a'', JStr ''b''])])])"
  have h1: "list_all (\<lambda>name. \<not> builtin_name name) (segments ''user.tags.1'')"
    and h2: "list_all (\<lambda>name. \<not> builtin_name name) (segments ''user.profile.name'')"
    by code_simp+
  have v1: "spec_lookup ?d (segments ''user.tags.1'') = Json (JStr ''b'')"
    and v2: "spec_lookup ?d (segments ''user.profile.name'') = JUndefined"
    by code_simp+
  from getNestedValue_never_throws [of ?d "''user.tags.1''"]
       getNestedValue_never_throws [of ?d "''user.profile.name''"] h1 h2
  show ?thesis unfolding v1 v2 by blast
qed

text \<open>
  C7. A template that is not a string makes the call fail with a \<open>TypeError\<close> at once:
  no event has happened, so the validator was not called and nothing was scanned. A
  template that is a string never makes the call fail with this error, whatever type
  its message names.
\<close>
theorem holma_template_must_be_string:
  "(typeof template \<noteq> ''string'' \<longrightarrow>
      holma template schema data options =
        ([], Inl (TypeError (''Expected a `string` for template, got `'' @ typeof template @ ''`''))))
   \<and> (typeof template = ''string'' \<longrightarrow>
        (\<forall>ty. snd (holma template schema data options) \<noteq>
                Inl (TypeError (''Expected a `string` for template, got `'' @ ty @ ''`''))))"
proof (intro conjI impI allI)
  assume "typeof template \<noteq> ''string''"
  then show "holma template schema data options =
        ([], Inl (TypeError (''Expected a `string` for template, got `'' @ typeof template @ ''`'')))"
    by (simp add: holma_def throw_def)
next
  fix ty
  assume "typeof template = ''string''"
  then show "snd (holma template schema data options) \<noteq>
                Inl (TypeError (''Expected a `string` for template, got `'' @ ty @ ''`''))"
    by (rule holma_string_template_error)
qed

theorem holma_template_must_be_string_witness:
  "holma (Json (JNum ''123'')) accept (Json (JObj [(''name'', JStr ''test'')]))
       \<lparr>ignoreMissing = False, transform = None\<rparr>
     = ([], Inl (TypeError ''Expected a `string` for template, got `number`''))
   \<and> (\<forall>ty. snd (holma (Json (JStr ''Hello {name}!'')) accept (Json (JObj []))
                  \<lparr>ignoreMissing = False, transform = None\<rparr>)
             \<noteq> Inl (TypeError (''Expected a `string` for template, got `'' @ ty @ ''`'')))"
  using holma_template_must_be_string [of "Json (JNum ''123'')" accept
          "Json (JObj [(''name'', JStr ''test'')])"
          "\<lparr>ignoreMissing = False, transform = None\<rparr>"]
        holma_template_must_be_string [of "Json (JStr ''Hello {name}!'')" accept "Json (JObj [])"
          "\<lparr>ignoreMissing = False, transform = None\<rparr>"]
  by simp

text \<open>
  C8. On a template without a double-brace placeholder, skipping the first pass and
  running it give the same events and the same outcome, and \<open>holma\<close> with its guard
  agrees with both.
\<close>
theorem first_pass_guard_is_optimization:
  assumes "\<not> rx_test doubleBraces (str_of template)"
  shows "holma_first_pass_skipped template schema data options
           = holma_first_pass_always template schema data options
         \<and> holma template schema data options
           = holma_first_pass_always template schema data options"
  using assms
  by (simp add: holma_first_pass_skipped_def holma_first_pass_always_def holma_def
        replace_all_no_match)

theorem first_pass_guard_is_optimization_witness:
  "\<not> rx_test doubleBraces (str_of (Json (JStr ''Hello {name}!'')))
   \<and> holma_first_pass_skipped (Json (JStr ''Hello {name}!'')) accept
             (Json (JObj [(''name'', JStr ''World'')]))
             \<lparr>ignoreMissing = False, transform = None\<rparr>
       = holma_first_pass_always (Json (JStr ''Hello {name}!'')) accept
             (Json (JObj [(''name'', JStr ''World'')]))
             \<lparr>ignoreMissing = False, transform = None\<rparr>
   \<and> holma (Json (JStr ''Hello {name}!'')) accept (Json (JObj [(''name'', JStr ''World'')]))
             \<lparr>ignoreMissing = False, transform = None\<rparr>
       = holma_first_pass_always (Json (JStr ''Hello {name}!'')) accept
             (Json (JObj [(''name'', JStr ''World'')]))
             \<lparr>ignoreMissing = False, transform = None\<rparr>"
proof -
  have h: "\<not> rx_test doubleBraces (str_of (Json (JStr ''Hello {name}!'')))"
    by code_simp
  from first_pass_guard_is_optimization [OF h] h show ?thesis by blast
qed

text \<open>
  C9. Text in braces that holds no brace inside and is not a key of the patterns is left
  as it is, whatever stands before and after it: when the text before and the text
  after render, the whole template renders to their renderings with the braces and
  their content in between. The keys are those of the patterns, \<open>is_key\<close>: after the
  first segment a segment may be empty and may start with a digit or a hyphen.
\<close>
theorem non_key_braces_are_left_untouched:
  assumes "schema data = VValue d"
    and "CHR ''{'' \<notin> set body" and "CHR ''}'' \<notin> set body" and "\<not> is_key body"
    and "snd (holma (Json (JStr pre)) schema data options) = Inr o1"
    and "snd (holma (Json (JStr post)) schema data options) = Inr o2"
  shows "snd (holma (Json (JStr (pre @ ''{'' @ body @ ''}'' @ post))) schema data options) =
           Inr (o1 @ ''{'' @ body @ ''}'' @ o2)"
  using non_key_in_context [of schema data d body pre options o1 post o2, OF assms] .

theorem non_key_braces_are_left_untouched_witness:
  "snd (holma (Json (JStr ''Hello {name}, {not a key} and {}'')) accept person plain)
     = Inr ''Hello World, {not a key} and {}''"
proof -
  have a: "accept person = VValue person" by (simp add: accept_def)
  have b: "CHR ''{'' \<notin> set ''not a key''" "CHR ''}'' \<notin> set ''not a key''"
    "\<not> is_key ''not a key''" by code_simp+
  have o1: "snd (holma (Json (JStr ''Hello {name}, '')) accept person plain)
              = Inr ''Hello World, ''"
    by code_simp
  have o2: "snd (holma (Json (JStr '' and {}'')) accept person plain) = Inr '' and {}''"
    by code_simp
  from non_key_braces_are_left_untouched [of accept person person "''not a key''"
         "''Hello {name}, ''" plain "''Hello World, ''" "'' and {}''" "'' and {}''",
         OF a b o1 o2]
  show ?thesis by simp
qed

text \<open>
  C9, as the specification words it, fails: its grammar is narrower than the patterns: \<open>a.\<close> and \<open>a.0\<close> are
  no keys of that grammar, and still \<open>{a.}\<close> and \<open>{a.0}\<close> are substituted, or fail for a
  missing value.
\<close>

theorem spec_grammar_counterexample:
  "\<not> spec_key ''a.''
   \<and> snd (holma (Json (JStr ''{a.}'')) accept (Json (JObj [(''a'', JObj [([], JStr ''x'')])])) plain)
       = Inr ''x''
   \<and> snd (holma (Json (JStr ''{a.}'')) accept (Json (JObj [])) plain)
       = Inl (MissingValueError ''a.'')
   \<and> \<not> spec_key ''a.0''
   \<and> snd (holma (Json (JStr ''{a.0}'')) accept (Json (JObj [(''a'', JArr [JStr ''x''])])) plain)
       = Inr ''x''"
  by code_simp



end
